theory Spec2Isabelle
  imports Main "HOL-Library.Sublist"
begin

section \<open>Strings and the Unicode tables\<close>

text \<open>
  A Python \<open>str\<close> is a sequence of Unicode code points, and \<open>len\<close>, indexing, slicing
  and \<open>find\<close> all count code points. A code point is modelled as a natural number and a
  string as a list of them; \<open>cps\<close> reads a literal.
\<close>

type_synonym codepoint = nat
type_synonym str = "codepoint list"

definition cps :: "string \<Rightarrow> str" where
  "cps s = map of_char s"

text \<open>
  \<open>str.upper\<close> and the classes \<open>\s\<close>, \<open>\w\<close>, \<open>\d\<close> of the \<open>re\<close> module are
  tables of the Unicode database, which is not part of the program. They are a parameter
  of every function that consults them. \<open>to_upper\<close> is the full uppercase mapping of one
  code point: it may yield more than one code point (U+00DF, the sharp s, yields \<open>SS\<close>).
\<close>

record unicode_tables =
  to_upper :: "codepoint \<Rightarrow> str"
  is_space :: "codepoint \<Rightarrow> bool"
  is_word :: "codepoint \<Rightarrow> bool"
  is_digit :: "codepoint \<Rightarrow> bool"

text \<open>\<open>s.upper()\<close>: the uppercase mappings of the characters of \<open>s\<close>, concatenated.\<close>

definition upper :: "unicode_tables \<Rightarrow> str \<Rightarrow> str" where
  "upper U s = concat (map (to_upper U) s)"

text \<open>The character class \<open>[A-Za-z]\<close>.\<close>

definition is_ascii_letter :: "codepoint \<Rightarrow> bool" where
  "is_ascii_letter c \<longleftrightarrow> (65 \<le> c \<and> c \<le> 90) \<or> (97 \<le> c \<and> c \<le> 122)"

text \<open>
  Three facts a table may satisfy. Python's table sends every ASCII letter to one
  character and no character to the empty string; it sends every character of an ASCII
  string to one character, but not every character of every string.
\<close>

definition letters_upper_single :: "unicode_tables \<Rightarrow> bool" where
  "letters_upper_single U \<longleftrightarrow> (\<forall>c. is_ascii_letter c \<longrightarrow> length (to_upper U c) = 1)"

definition upper_nonempty :: "unicode_tables \<Rightarrow> bool" where
  "upper_nonempty U \<longleftrightarrow> (\<forall>c. to_upper U c \<noteq> [])"

definition upper_single :: "unicode_tables \<Rightarrow> str \<Rightarrow> bool" where
  "upper_single U s \<longleftrightarrow> (\<forall>c\<in>set s. length (to_upper U c) = 1)"

text \<open>
  The tables on the Basic Latin block U+0000..U+007F, together with the uppercase
  expansion of U+00DF. They serve to evaluate the functions on concrete inputs drawn
  from these code points.
\<close>

definition latin_tables :: unicode_tables where
  "latin_tables =
     \<lparr> to_upper = (\<lambda>c. if 97 \<le> c \<and> c \<le> 122 then [c - 32]
                         else if c = 223 then [83, 83] else [c]),
       is_space = (\<lambda>c. (9 \<le> c \<and> c \<le> 13) \<or> (28 \<le> c \<and> c \<le> 32)),
       is_word = (\<lambda>c. (48 \<le> c \<and> c \<le> 57) \<or> (65 \<le> c \<and> c \<le> 90) \<or> c = 95
                        \<or> (97 \<le> c \<and> c \<le> 122)),
       is_digit = (\<lambda>c. 48 \<le> c \<and> c \<le> 57) \<rparr>"

text \<open>\<open>s[i:j]\<close> and \<open>s[i:]\<close> for offsets \<open>0 \<le> i\<close>, \<open>0 \<le> j\<close>: out-of-range offsets are clamped.\<close>

definition slice :: "str \<Rightarrow> nat \<Rightarrow> nat \<Rightarrow> str" where
  "slice s i j = drop i (take j s)"

definition slice_from :: "str \<Rightarrow> nat \<Rightarrow> str" where
  "slice_from s i = drop i s"

section \<open>The verse parser\<close>

text \<open>The dictionary \<open>{'book', 'chapter', 'verse', 'text'}\<close> of one verse.\<close>

record verse =
  book :: str
  "chapter" :: str
  verse :: str
  "text" :: str

text \<open>
  The regular expression of \<open>load_bible\<close> is a sequence of greedy repetitions of one
  character class each, with four groups. \<open>Cls P mn mx\<close> is a repetition of the class
  \<open>P\<close>, at least \<open>mn\<close> and (when \<open>mx\<close> is given) at most \<open>mx\<close> times: \<open>P?\<close> is
  \<open>Cls P 0 (Some 1)\<close>, \<open>P*\<close> is \<open>Cls P 0 None\<close>, \<open>P+\<close> is \<open>Cls P 1 None\<close> and a literal
  is \<open>Cls P 1 (Some 1)\<close>. \<open>Open\<close> and \<open>Close\<close> are the parentheses of a group.
\<close>

datatype item = Cls "codepoint \<Rightarrow> bool" nat "nat option" | Open | Close

text \<open>
  The backtracking matcher of the \<open>re\<close> module on such a sequence. A repetition first
  takes as many characters as it can and gives them back one at a time while the rest
  of the pattern fails; \<open>first_some\<close> is the first alternative that succeeds. \<open>cur\<close> is
  the text of the group that is open, \<open>caps\<close> the groups closed so far. The match is
  anchored at the start of the string and need not reach its end (\<open>pattern.match\<close>).
\<close>

fun first_some :: "'a option list \<Rightarrow> 'a option" where
  "first_some [] = None"
| "first_some (None # xs) = first_some xs"
| "first_some (Some x # xs) = Some x"

definition greedy_len :: "(codepoint \<Rightarrow> bool) \<Rightarrow> nat option \<Rightarrow> str \<Rightarrow> nat" where
  "greedy_len P mx s =
     (let m = length (takeWhile P s) in case mx of None \<Rightarrow> m | Some b \<Rightarrow> min m b)"

fun rmatch :: "item list \<Rightarrow> str \<Rightarrow> str option \<Rightarrow> str list \<Rightarrow> str list option" where
  "rmatch [] s cur caps = Some caps"
| "rmatch (Open # r) s cur caps = rmatch r s (Some []) caps"
| "rmatch (Close # r) s cur caps =
     rmatch r s None (caps @ [case cur of Some g \<Rightarrow> g | None \<Rightarrow> []])"
| "rmatch (Cls P mn mx # r) s cur caps =
     first_some (map (\<lambda>k. rmatch r (drop k s) (map_option (\<lambda>g. g @ take k s) cur) caps)
                     (rev [mn ..< Suc (greedy_len P mx s)]))"

text \<open>
  \<open>^([1-3]?\s*\w+)\s+(\d+):(\d+)\s+(.*)\<close>. The digits \<open>1\<close> to \<open>3\<close> are the code points 49
  to 51, the colon is 58, and \<open>.\<close> is every character but the newline, 10.
\<close>

definition verse_pattern :: "unicode_tables \<Rightarrow> item list" where
  "verse_pattern U =
     [Open, Cls (\<lambda>c. 49 \<le> c \<and> c \<le> 51) 0 (Some 1), Cls (is_space U) 0 None,
            Cls (is_word U) 1 None, Close,
      Cls (is_space U) 1 None,
      Open, Cls (is_digit U) 1 None, Close,
      Cls (\<lambda>c. c = 58) 1 (Some 1),
      Open, Cls (is_digit U) 1 None, Close,
      Cls (is_space U) 1 None,
      Open, Cls (\<lambda>c. c \<noteq> 10) 0 None, Close]"

definition re_match :: "item list \<Rightarrow> str \<Rightarrow> str list option" where
  "re_match pattern line = rmatch pattern line None []"

text \<open>\<open>m.group(i)\<close> for \<open>i \<ge> 1\<close>; the pattern has four groups, so \<open>m\<close> has four entries.\<close>

definition group :: "str list \<Rightarrow> nat \<Rightarrow> str" where
  "group m i = m ! (i - 1)"

text \<open>The body of the loop over the lines: the verse of a line that matches.\<close>

definition parse_line :: "unicode_tables \<Rightarrow> str \<Rightarrow> verse option" where
  "parse_line U line =
     (case re_match (verse_pattern U) line of
        None \<Rightarrow> None
      | Some m \<Rightarrow> Some \<lparr> book = group m 1, chapter = group m 2, verse = group m 3,
                         text = group m 4 \<rparr>)"

text \<open>
  \<open>load_bible\<close> on the lines of the file (each with its final newline, as iterating over
  the file yields them). Opening and decoding the file are outside the model.
\<close>

definition load_bible :: "unicode_tables \<Rightarrow> str list \<Rightarrow> verse list" where
  "load_bible U lines =
     foldl (\<lambda>verses line. case parse_line U line of None \<Rightarrow> verses | Some v \<Rightarrow> verses @ [v])
           [] lines"


section \<open>The highlighter\<close>

text \<open>
  \<open>s.replace(old, new)\<close>: every non-overlapping occurrence of \<open>old\<close>, found from the
  left, is replaced; an empty \<open>old\<close> matches before every character and at the end.
\<close>

function str_replace :: "str \<Rightarrow> str \<Rightarrow> str \<Rightarrow> str" where
  "str_replace old new s =
     (if old = [] then new @ concat (map (\<lambda>c. c # new) s)
      else if s = [] then []
      else if prefix old s then new @ str_replace old new (drop (length old) s)
      else hd s # str_replace old new (tl s))"
  by pat_completeness auto
termination
  by (relation "measure (\<lambda>(old, new, s). length s)") auto

declare str_replace.simps [simp del]

definition escape_html :: "str \<Rightarrow> str" where
  "escape_html txt =
     str_replace (cps ''>'') (cps ''&gt;'')
       (str_replace (cps ''<'') (cps ''&lt;'')
          (str_replace (cps ''&'') (cps ''&amp;'') txt))"

text \<open>The two halves of the marker \<open><span class="...">...</span>\<close>.\<close>

definition span_open :: "str \<Rightarrow> str" where
  \<open>span_open css_class = cps ''<span class="'' @ css_class @ cps ''">''\<close>

definition span_close :: str where
  "span_close = cps ''</span>''"

text \<open>
  The loop of \<open>highlight_text\<close> over the sorted intervals; \<open>lastp\<close> is the source's
  \<open>last\<close>. Offsets are natural numbers, as those of every caller are.
\<close>

fun highlight_parts :: "str \<Rightarrow> str \<Rightarrow> (nat \<times> nat) list \<Rightarrow> nat \<Rightarrow> str list \<Rightarrow> str list \<times> nat" where
  "highlight_parts txt css_class [] lastp parts = (parts, lastp)"
| "highlight_parts txt css_class ((start, len) # ms) lastp parts =
     (let parts1 = parts @ [escape_html (slice txt lastp start)];
          segment = escape_html (slice txt start (start + len));
          parts2 = parts1 @ [span_open css_class @ segment @ span_close]
      in highlight_parts txt css_class ms (start + len) parts2)"

text \<open>\<open>sorted(matches, key=lambda x: x[0])\<close> is a stable sort by start offset.\<close>

definition highlight_text :: "str \<Rightarrow> (nat \<times> nat) list \<Rightarrow> str \<Rightarrow> str" where
  "highlight_text txt matches css_class =
     (if matches = [] then escape_html txt
      else let (parts, lastp) = highlight_parts txt css_class (sort_key fst matches) 0 []
           in concat (parts @ [escape_html (slice_from txt lastp)]))"

section \<open>The direct and the reversed matcher\<close>

text \<open>
  \<open>s.find(sub, start)\<close> for \<open>start \<ge> 0\<close>: the lowest offset \<open>\<ge> start\<close> at which \<open>sub\<close>
  occurs in \<open>s\<close>; \<open>None\<close> stands for the result \<open>-1\<close>. \<open>find_at sub s i\<close> searches the
  suffix \<open>s\<close> that starts at offset \<open>i\<close>. The empty string occurs at every offset up to
  and including the length.
\<close>

fun find_at :: "str \<Rightarrow> str \<Rightarrow> nat \<Rightarrow> nat option" where
  "find_at sub [] i = (if sub = [] then Some i else None)"
| "find_at sub (c # cs) i = (if prefix sub (c # cs) then Some i else find_at sub cs (Suc i))"

definition str_find :: "str \<Rightarrow> str \<Rightarrow> nat \<Rightarrow> nat option" where
  "str_find s sub start = (if start > length s then None else find_at sub (drop start s) start)"

text \<open>
  The loop \<open>while idx != -1\<close> shared by \<open>find_direct\<close> and \<open>find_reversed\<close>, entered
  with the result of the first \<open>find\<close>. The source has no bound on it, so the model is a
  partial function: \<open>None\<close> is the loop that never exits.
\<close>

partial_function (option) scan_matches ::
    "str \<Rightarrow> str \<Rightarrow> nat option \<Rightarrow> (nat \<times> nat) list \<Rightarrow> (nat \<times> nat) list option" where
  "scan_matches text_u term_u idx matches =
     (case idx of
        None \<Rightarrow> Some matches
      | Some i \<Rightarrow> scan_matches text_u term_u (str_find text_u term_u (i + length term_u))
                    (matches @ [(i, length term_u)]))"

definition find_direct :: "unicode_tables \<Rightarrow> str \<Rightarrow> str \<Rightarrow> (nat \<times> nat) list option" where
  "find_direct U txt term =
     (let text_u = upper U txt; term_u = upper U term
      in scan_matches text_u term_u (str_find text_u term_u 0) [])"

text \<open>\<open>term.upper()[::-1]\<close>: the term is uppercased first and reversed second.\<close>

definition find_reversed :: "unicode_tables \<Rightarrow> str \<Rightarrow> str \<Rightarrow> (nat \<times> nat) list option" where
  "find_reversed U txt term =
     (let text_u = upper U txt; rv = rev (upper U term)
      in scan_matches text_u rv (str_find text_u rv 0) [])"

section \<open>The ELS matcher\<close>

record els_result =
  skip :: nat
  positions :: "nat list"
  cleaned :: str

text \<open>\<open>re.findall('[A-Za-z]', text)\<close>: the one-character matches, in order.\<close>

definition findall_letters :: "str \<Rightarrow> str list" where
  "findall_letters txt = map (\<lambda>c. [c]) (filter is_ascii_letter txt)"

text \<open>
  The inner loop \<open>for start in range(n)\<close> of \<open>find_els\<close> for one skip \<open>k\<close>, over the
  remaining start indices. \<open>endp\<close> is the source's \<open>end\<close>; it is negative when the term is
  empty, so it is computed over the integers. The first equation of the \<open>if\<close> is the
  \<open>break\<close>.
\<close>

fun els_starts :: "str \<Rightarrow> str \<Rightarrow> str \<Rightarrow> nat \<Rightarrow> nat list \<Rightarrow> els_result list \<Rightarrow> els_result list" where
  "els_starts cl cu tu k [] results = results"
| "els_starts cl cu tu k (start # rest) results =
     (let len = length tu; n = length cu;
          endp = int start + (int len - 1) * int k
      in if endp \<ge> int n then results
         else let seq = map (\<lambda>i. cu ! (start + i * k)) [0..<len]
              in if seq = tu
                 then els_starts cl cu tu k rest
                        (results @ [\<lparr> skip = k,
                                      positions = map (\<lambda>i. start + i * k) [0..<len],
                                      cleaned = cl \<rparr>])
                 else els_starts cl cu tu k rest results)"

definition find_els :: "unicode_tables \<Rightarrow> str \<Rightarrow> str \<Rightarrow> nat \<Rightarrow> els_result list" where
  "find_els U txt term max_skip =
     (let letters = findall_letters txt;
          cl = concat letters;
          cu = upper U cl;
          tu = upper U term;
          n = length cu
      in foldl (\<lambda>results k. els_starts cl cu tu k [0..<n] results) [] [1..<max_skip + 1])"

section \<open>The report assembler\<close>

text \<open>\<open>str(n)\<close> for a count \<open>n \<ge> 0\<close>: its decimal digits.\<close>

fun str_of_nat :: "nat \<Rightarrow> str" where
  "str_of_nat n = (if n < 10 then [48 + n] else str_of_nat (n div 10) @ [48 + n mod 10])"

declare str_of_nat.simps [simp del]

text \<open>\<open>sep.join(xs)\<close>.\<close>

fun str_join :: "str \<Rightarrow> str list \<Rightarrow> str" where
  "str_join sep [] = []"
| "str_join sep [x] = x"
| "str_join sep (x # y # ys) = x @ sep @ str_join sep (y # ys)"

text \<open>
  \<open>sum(len(f(v)) for v in verses)\<close>, with the running total \<open>acc\<close>. The direct and the
  reversed matcher may fail to return; then so does the sum.
\<close>

fun sum_lengths :: "(verse \<Rightarrow> 'a list option) \<Rightarrow> verse list \<Rightarrow> nat \<Rightarrow> nat option" where
  "sum_lengths f [] acc = Some acc"
| "sum_lengths f (v # vs) acc =
     (case f v of None \<Rightarrow> None | Some ms \<Rightarrow> sum_lengths f vs (acc + length ms))"

text \<open>The label \<open>f"{v['book']} {v['chapter']}:{v['verse']}"\<close>.\<close>

definition location :: "verse \<Rightarrow> str" where
  "location v = book v @ cps '' '' @ chapter v @ cps '':'' @ verse v"

text \<open>
  The loop over the verses of the section of conventional matches and of the section of
  reversed matches, which differ in the matcher and the style class only. \<open>html\<close> is the
  list of lines built so far.
\<close>

fun match_section ::
    "(verse \<Rightarrow> (nat \<times> nat) list option) \<Rightarrow> str \<Rightarrow> verse list \<Rightarrow> str list \<Rightarrow> str list option" where
  "match_section finder css_class [] html = Some html"
| "match_section finder css_class (v # vs) html =
     (case finder v of
        None \<Rightarrow> None
      | Some ms \<Rightarrow>
          if ms \<noteq> []
          then let loc = location v
               in match_section finder css_class vs
                    (html @ [cps ''<h3>'' @ loc @ cps ''</h3>'',
                             cps ''<p>'' @ highlight_text (text v) ms css_class @ cps ''</p>''])
          else match_section finder css_class vs html)"

text \<open>The two loops of the ELS section: over the results of a verse, and over the verses.\<close>

fun els_results :: "str \<Rightarrow> els_result list \<Rightarrow> str list \<Rightarrow> str list" where
  "els_results loc_base [] html = html"
| "els_results loc_base (m # ms) html =
     (let skp = skip m; pos = positions m; cl = cleaned m;
          highlights = map (\<lambda>p. (p, 1)) pos;
          subtitle = loc_base @ cps '' (skip='' @ str_of_nat skp @ cps '')''
      in els_results loc_base ms
           (html @ [cps ''<h3>'' @ subtitle @ cps ''</h3>'',
                    cps ''<p>'' @ highlight_text cl highlights (cps ''highlight-els'') @ cps ''</p>'']))"

fun els_section :: "unicode_tables \<Rightarrow> str \<Rightarrow> verse list \<Rightarrow> str list \<Rightarrow> str list" where
  "els_section U term [] html = html"
| "els_section U term (v # vs) html =
     (let els = find_els U (text v) term 50
      in if els \<noteq> []
         then els_section U term vs (els_results (location v) els html)
         else els_section U term vs html)"

text \<open>The lines appended before the first section, with the three counts.\<close>

definition html_head :: "str \<Rightarrow> nat \<Rightarrow> nat \<Rightarrow> nat \<Rightarrow> str list" where
  \<open>html_head term direct_count reverse_count els_count =
     [cps ''<!DOCTYPE html>'',
      cps ''<html lang="en">'',
      cps ''<head>'',
      cps ''  <meta charset="UTF-8">'',
      cps ''  <title>Yada Bible Word Search Report for "'' @ term @ cps ''"</title>'',
      cps ''  <style>'',
      cps ''    body { font-family: sans-serif; white-space: pre-wrap; }'',
      cps ''    .highlight-direct { background: yellow; }'',
      cps ''    .highlight-reverse { background: cyan; }'',
      cps ''    .highlight-els { background: magenta; }'',
      cps ''    nav { margin-bottom: 1em; }'',
      cps ''    nav a { margin-right: 1em; text-decoration: none; }'',
      cps ''    h1, h2, h3 { margin-top: 1em; }'',
      cps ''  </style>'',
      cps ''</head>'',
      cps ''<body>'',
      cps ''<h1>Search Term: '' @ term @ cps ''</h1>'',
      cps ''<nav>'',
      cps ''<a href="#conventional">Conventional Matches ('' @ str_of_nat direct_count
        @ cps '')</a> | ''
        @ cps ''<a href="#reversed">Reversed Matches ('' @ str_of_nat reverse_count
        @ cps '')</a> | ''
        @ cps ''<a href="#els">Equidistant Matches ('' @ str_of_nat els_count @ cps '')</a>'',
      cps ''</nav>'']\<close>

text \<open>
  \<open>generate_html\<close>: the list \<open>html\<close> at the end of the function, and the string it
  returns. \<open>find_els\<close> is called with its default \<open>max_skip = 50\<close>. \<open>None\<close>: a matcher
  did not return.
\<close>

definition generate_html_lines :: "unicode_tables \<Rightarrow> verse list \<Rightarrow> str \<Rightarrow> str list option" where
  \<open>generate_html_lines U verses term =
     (case sum_lengths (\<lambda>v. find_direct U (text v) term) verses 0 of
        None \<Rightarrow> None
      | Some direct_count \<Rightarrow>
     (case sum_lengths (\<lambda>v. find_reversed U (text v) term) verses 0 of
        None \<Rightarrow> None
      | Some reverse_count \<Rightarrow>
     (case sum_lengths (\<lambda>v. Some (find_els U (text v) term 50)) verses 0 of
        None \<Rightarrow> None
      | Some els_count \<Rightarrow>
     (case match_section (\<lambda>v. find_direct U (text v) term) (cps ''highlight-direct'') verses
             (html_head term direct_count reverse_count els_count
                @ [cps ''<h2 id="conventional">Conventional Matches</h2>'']) of
        None \<Rightarrow> None
      | Some html1 \<Rightarrow>
     (case match_section (\<lambda>v. find_reversed U (text v) term) (cps ''highlight-reverse'') verses
             (html1 @ [cps ''<h2 id="reversed">Reversed Matches</h2>'']) of
        None \<Rightarrow> None
      | Some html2 \<Rightarrow>
          Some (els_section U term verses
                  (html2 @ [cps ''<h2 id="els">Equidistant Letter Sequences (ELS)</h2>''])
                @ [cps ''</body>'', cps ''</html>'']))))))\<close>

definition generate_html :: "unicode_tables \<Rightarrow> verse list \<Rightarrow> str \<Rightarrow> str option" where
  "generate_html U verses term = map_option (str_join [10]) (generate_html_lines U verses term)"


section \<open>Predicates of the properties\<close>

text \<open>The loop variables \<open>(skip, start)\<close> of the iterations that append a result.\<close>

definition els_fits :: "str \<Rightarrow> str \<Rightarrow> nat \<Rightarrow> nat \<Rightarrow> bool" where
  "els_fits cu tu k start \<longleftrightarrow> int start + (int (length tu) - 1) * int k < int (length cu)"

definition els_spells :: "str \<Rightarrow> str \<Rightarrow> nat \<Rightarrow> nat \<Rightarrow> bool" where
  "els_spells cu tu k start \<longleftrightarrow> map (\<lambda>i. cu ! (start + i * k)) [0..<length tu] = tu"

definition els_result_at :: "str \<Rightarrow> nat \<Rightarrow> nat \<times> nat \<Rightarrow> els_result" where
  "els_result_at cl len ks =
     \<lparr> skip = fst ks, positions = map (\<lambda>i. snd ks + i * fst ks) [0..<len], cleaned = cl \<rparr>"

definition els_hits :: "str \<Rightarrow> str \<Rightarrow> nat \<Rightarrow> (nat \<times> nat) list" where
  "els_hits cu tu max_skip =
     concat (map (\<lambda>k. map (Pair k)
                         (filter (els_spells cu tu k) (takeWhile (els_fits cu tu k) [0..<length cu])))
                 [1..<max_skip + 1])"

text \<open>
  \<open>occurs_at s sub p\<close>: \<open>sub\<close> is the substring of \<open>s\<close> at offset \<open>p\<close>. \<open>greedy_cover\<close>: the
  list holds, from offset \<open>lo\<close> on, the leftmost occurrence, then the leftmost occurrence
  at or after its end, and so on until none is left. \<open>ci_occurs\<close>: the slice of the
  ORIGINAL text at offset \<open>p\<close>, of the length of the term, equals the term when both
  are uppercased.
\<close>

definition occurs_at :: "str \<Rightarrow> str \<Rightarrow> nat \<Rightarrow> bool" where
  "occurs_at s sub p \<longleftrightarrow> p + length sub \<le> length s \<and> slice s p (p + length sub) = sub"

fun greedy_cover :: "str \<Rightarrow> str \<Rightarrow> nat \<Rightarrow> (nat \<times> nat) list \<Rightarrow> bool" where
  "greedy_cover s sub lo [] \<longleftrightarrow> (\<forall>q\<ge>lo. \<not> occurs_at s sub q)"
| "greedy_cover s sub lo ((i, l) # ms) \<longleftrightarrow>
     lo \<le> i \<and> l = length sub \<and> occurs_at s sub i \<and> (\<forall>q. lo \<le> q \<and> q < i \<longrightarrow> \<not> occurs_at s sub q)
     \<and> greedy_cover s sub (i + l) ms"

definition ci_occurs :: "unicode_tables \<Rightarrow> str \<Rightarrow> str \<Rightarrow> nat \<Rightarrow> bool" where
  "ci_occurs U txt w p \<longleftrightarrow>
     p + length w \<le> length txt \<and> upper U (slice txt p (p + length w)) = upper U w"

text \<open>
  The inverse reading of a highlighted string: \<open>strip_markers\<close> deletes every opening
  and closing marker of the style class, \<open>unescape_html\<close> replaces the three entities
  by their characters. \<open>intervals_ok\<close>: the intervals are Match Intervals of the text
  (positive length, inside the text) and no two of them overlap.
\<close>

function strip_markers :: "str \<Rightarrow> str \<Rightarrow> str" where
  "strip_markers css_class s =
     (if s = [] then []
      else if prefix (span_open css_class) s
        then strip_markers css_class (drop (length (span_open css_class)) s)
      else if prefix span_close s then strip_markers css_class (drop (length span_close) s)
      else hd s # strip_markers css_class (tl s))"
  by pat_completeness auto
termination
  by (relation "measure (\<lambda>(css_class, s). length s)")
     (auto simp: span_open_def span_close_def cps_def)

declare strip_markers.simps [simp del]

function unescape_html :: "str \<Rightarrow> str" where
  "unescape_html s =
     (if s = [] then []
      else if prefix (cps ''&amp;'') s then cps ''&'' @ unescape_html (drop 5 s)
      else if prefix (cps ''&lt;'') s then cps ''<'' @ unescape_html (drop 4 s)
      else if prefix (cps ''&gt;'') s then cps ''>'' @ unescape_html (drop 4 s)
      else hd s # unescape_html (tl s))"
  by pat_completeness auto
termination
  by (relation "measure length") auto

declare unescape_html.simps [simp del]

definition intervals_ok :: "str \<Rightarrow> (nat \<times> nat) list \<Rightarrow> bool" where
  "intervals_ok txt ms \<longleftrightarrow>
     distinct ms
     \<and> (\<forall>(s, l)\<in>set ms. 0 < l \<and> s + l \<le> length txt)
     \<and> (\<forall>(s, l)\<in>set ms. \<forall>(s', l')\<in>set ms. (s, l) \<noteq> (s', l') \<longrightarrow> s + l \<le> s' \<or> s' + l' \<le> s)"


text \<open>
  \<open>esc_char\<close>: what \<open>escape_html\<close> makes of one character. \<open>chain lo ms\<close>: each interval
  starts at or after the end of the one before it, the first at or after \<open>lo\<close>.
\<close>

definition esc_char :: "codepoint \<Rightarrow> str" where
  "esc_char c = (if c = 38 then cps ''&amp;'' else if c = 60 then cps ''&lt;''
                 else if c = 62 then cps ''&gt;'' else [c])"

text \<open>
  The marked-up string of a text for a list of intervals in the order of their starts,
  from offset \<open>lo\<close> on: the characters before an interval escaped, the interval's
  characters escaped between the two markers, and so on to the end of the text.
\<close>

definition escaped :: "str \<Rightarrow> str" where
  "escaped s = concat (map esc_char s)"

fun marked_up :: "str \<Rightarrow> str \<Rightarrow> nat \<Rightarrow> (nat \<times> nat) list \<Rightarrow> str" where
  "marked_up txt css lo [] = escaped (drop lo txt)"
| "marked_up txt css lo ((s, l) # ms) =
     escaped (slice txt lo s) @ span_open css @ escaped (slice txt s (s + l)) @ span_close
     @ marked_up txt css (s + l) ms"

fun chain :: "nat \<Rightarrow> (nat \<times> nat) list \<Rightarrow> bool" where
  "chain lo [] \<longleftrightarrow> True"
| "chain lo ((s, l) # ms) \<longleftrightarrow> lo \<le> s \<and> chain (s + l) ms"

text \<open>
  What a match of the pattern is, without reference to the order in which the matcher
  tries the alternatives. \<open>derives\<close>: the string starts with one chunk for each
  repetition of the pattern, each chunk of an allowed length and made of characters of
  its class, and \<open>res\<close> holds the chunks of each group. \<open>consumes\<close>: the same for a part
  of a pattern that uses up the whole of a string and leaves the open group \<open>cur'\<close> and
  the closed groups \<open>caps'\<close>.
\<close>

fun derives :: "item list \<Rightarrow> str \<Rightarrow> str option \<Rightarrow> str list \<Rightarrow> str list \<Rightarrow> bool" where
  "derives [] s cur caps res \<longleftrightarrow> res = caps"
| "derives (Open # r) s cur caps res \<longleftrightarrow> derives r s (Some []) caps res"
| "derives (Close # r) s cur caps res \<longleftrightarrow>
     derives r s None (caps @ [case cur of Some g \<Rightarrow> g | None \<Rightarrow> []]) res"
| "derives (Cls P mn mx # r) s cur caps res \<longleftrightarrow>
     (\<exists>a b. s = a @ b \<and> mn \<le> length a \<and> (case mx of None \<Rightarrow> True | Some bd \<Rightarrow> length a \<le> bd)
            \<and> list_all P a \<and> derives r b (map_option (\<lambda>g. g @ a) cur) caps res)"

fun consumes ::
    "item list \<Rightarrow> str \<Rightarrow> str option \<Rightarrow> str list \<Rightarrow> str option \<Rightarrow> str list \<Rightarrow> bool" where
  "consumes [] a cur caps cur' caps' \<longleftrightarrow> a = [] \<and> cur' = cur \<and> caps' = caps"
| "consumes (Open # r) a cur caps cur' caps' \<longleftrightarrow> consumes r a (Some []) caps cur' caps'"
| "consumes (Close # r) a cur caps cur' caps' \<longleftrightarrow>
     consumes r a None (caps @ [case cur of Some g \<Rightarrow> g | None \<Rightarrow> []]) cur' caps'"
| "consumes (Cls P mn mx # r) a cur caps cur' caps' \<longleftrightarrow>
     (\<exists>x y. a = x @ y \<and> mn \<le> length x \<and> (case mx of None \<Rightarrow> True | Some bd \<Rightarrow> length x \<le> bd)
            \<and> list_all P x \<and> consumes r y (map_option (\<lambda>g. g @ x) cur) caps cur' caps')"

text \<open>
  The book of a verse as the code takes it: an optional digit 1 to 3, whitespace or
  none, and a non-empty word.
\<close>

definition book_token :: "unicode_tables \<Rightarrow> str \<Rightarrow> bool" where
  "book_token U b \<longleftrightarrow>
     (\<exists>num sp0 word. b = num @ sp0 @ word
        \<and> length num \<le> 1 \<and> list_all (\<lambda>c. 49 \<le> c \<and> c \<le> 51) num
        \<and> list_all (is_space U) sp0
        \<and> word \<noteq> [] \<and> list_all (is_word U) word)"

text \<open>
  The book of a verse in the words of the specification: a word token, or a numeral 1
  to 3 followed by a word token, where whitespace may separate the numeral and the
  word. Whitespace stands only between a numeral and the word.
\<close>

definition spec_book_token :: "unicode_tables \<Rightarrow> str \<Rightarrow> bool" where
  "spec_book_token U b \<longleftrightarrow>
     (b \<noteq> [] \<and> list_all (is_word U) b)
     \<or> (\<exists>c sp0 word. b = [c] @ sp0 @ word \<and> 49 \<le> c \<and> c \<le> 51
           \<and> list_all (is_space U) sp0 \<and> word \<noteq> [] \<and> list_all (is_word U) word)"

text \<open>
  \<open>verse_parts\<close>: the line is the book, whitespace, the chapter digits, a colon, the
  verse digits and a tail that starts with whitespace; the text of the verse is what
  follows the whitespace at the start of the tail, up to the end of the line (the
  newline, code point 10, or the end of the string). \<open>verse_line\<close>: the line has such
  parts. \<open>verse_grammar\<close>: it has such parts with a book in the words of the
  specification.
\<close>

definition verse_parts :: "unicode_tables \<Rightarrow> str \<Rightarrow> verse \<Rightarrow> bool" where
  "verse_parts U line v \<longleftrightarrow>
     (\<exists>sp1 tail.
        line = book v @ sp1 @ chapter v @ [58] @ verse v @ tail
        \<and> book_token U (book v)
        \<and> sp1 \<noteq> [] \<and> list_all (is_space U) sp1
        \<and> chapter v \<noteq> [] \<and> list_all (is_digit U) (chapter v)
        \<and> verse v \<noteq> [] \<and> list_all (is_digit U) (verse v)
        \<and> takeWhile (is_space U) tail \<noteq> []
        \<and> text v = takeWhile (\<lambda>c. c \<noteq> 10) (dropWhile (is_space U) tail))"

definition verse_line :: "unicode_tables \<Rightarrow> str \<Rightarrow> bool" where
  "verse_line U line \<longleftrightarrow> (\<exists>v. verse_parts U line v)"

definition verse_grammar :: "unicode_tables \<Rightarrow> str \<Rightarrow> bool" where
  "verse_grammar U line \<longleftrightarrow> (\<exists>v. verse_parts U line v \<and> spec_book_token U (book v))"

text \<open>The number a string of ASCII digits denotes (\<open>int(s)\<close>).\<close>

definition decimal_value :: "str \<Rightarrow> nat" where
  "decimal_value s = foldl (\<lambda>n c. 10 * n + (c - 48)) 0 s"

text \<open>
  The lines one verse adds to a section of matches, and the lines one ELS result adds.
  \<open>count_sub m s\<close>: the number of offsets of \<open>s\<close> at which \<open>m\<close> occurs.
  \<open>rendered_spans\<close>: the number of opening markers of a style class in the paragraph
  lines of a section, that is the number of matches it renders. \<open>rendered_results\<close>:
  the number of paragraph lines that hold such a marker, that is the number of ELS
  results a section renders. \<open>nav_line\<close>: the navigation line for three counts.
\<close>

definition match_block :: "str \<Rightarrow> verse \<Rightarrow> (nat \<times> nat) list \<Rightarrow> str list" where
  "match_block css_class v ms =
     (if ms \<noteq> []
      then [cps ''<h3>'' @ location v @ cps ''</h3>'',
            cps ''<p>'' @ highlight_text (text v) ms css_class @ cps ''</p>'']
      else [])"

definition els_block :: "str \<Rightarrow> els_result \<Rightarrow> str list" where
  "els_block loc_base m =
     [cps ''<h3>'' @ loc_base @ cps '' (skip='' @ str_of_nat (skip m) @ cps '')'' @ cps ''</h3>'',
      cps ''<p>'' @ highlight_text (cleaned m) (map (\<lambda>p. (p, 1)) (positions m))
                      (cps ''highlight-els'') @ cps ''</p>'']"

fun count_sub :: "str \<Rightarrow> str \<Rightarrow> nat" where
  "count_sub m [] = 0"
| "count_sub m (c # cs) = (if prefix m (c # cs) then 1 else 0) + count_sub m cs"

definition rendered_spans :: "str \<Rightarrow> str list \<Rightarrow> nat" where
  "rendered_spans css_class lines =
     sum_list (map (count_sub (span_open css_class)) (filter (prefix (cps ''<p>'')) lines))"

definition rendered_results :: "str \<Rightarrow> str list \<Rightarrow> nat" where
  "rendered_results css_class lines =
     length (filter (\<lambda>l. prefix (cps ''<p>'') l \<and> 0 < count_sub (span_open css_class) l) lines)"

definition nav_line :: "nat \<Rightarrow> nat \<Rightarrow> nat \<Rightarrow> str" where
  "nav_line d r e =
     cps ''<a href=\"#conventional\">Conventional Matches ('' @ str_of_nat d
     @ cps '')</a> | <a href=\"#reversed\">Reversed Matches ('' @ str_of_nat r
     @ cps '')</a> | <a href=\"#els\">Equidistant Matches ('' @ str_of_nat e @ cps '')</a>''"

section \<open>Properties of the ELS matcher\<close>

lemma concat_singletons: "concat (map (\<lambda>c. [c]) xs) = xs"
  by (induction xs) simp_all

lemma els_starts_eq:
  "els_starts cl cu tu k starts results =
     results @ map (\<lambda>s. els_result_at cl (length tu) (k, s))
                   (filter (els_spells cu tu k) (takeWhile (els_fits cu tu k) starts))"
proof (induction starts arbitrary: results)
  case Nil
  show ?case by simp
next
  case (Cons s starts)
  show ?case
  proof (cases "els_fits cu tu k s")
    case False
    then show ?thesis by (simp add: els_fits_def Let_def)
  next
    case True
    then have nb: "\<not> int (length cu) \<le> int s + (int (length tu) - 1) * int k"
      by (simp add: els_fits_def)
    show ?thesis
    proof (cases "els_spells cu tu k s")
      case True
      then have sp: "map (\<lambda>i. cu ! (s + i * k)) [0..<length tu] = tu"
        by (simp add: els_spells_def)
      show ?thesis
        using \<open>els_fits cu tu k s\<close> True nb sp
        by (simp add: Let_def Cons.IH els_result_at_def)
    next
      case False
      then have sp: "map (\<lambda>i. cu ! (s + i * k)) [0..<length tu] \<noteq> tu"
        by (simp add: els_spells_def)
      show ?thesis
        using \<open>els_fits cu tu k s\<close> False nb sp
        by (simp add: Let_def Cons.IH)
    qed
  qed
qed

lemma els_foldl_eq:
  "foldl (\<lambda>results k. els_starts cl cu tu k [0..<length cu] results) acc ks =
     acc @ map (els_result_at cl (length tu))
               (concat (map (\<lambda>k. map (Pair k)
                   (filter (els_spells cu tu k) (takeWhile (els_fits cu tu k) [0..<length cu]))) ks))"
  by (induction ks arbitrary: acc) (simp_all add: els_starts_eq comp_def)

lemma find_els_hits:
  "find_els U txt term max_skip =
     map (els_result_at (filter is_ascii_letter txt) (length (upper U term)))
         (els_hits (upper U (filter is_ascii_letter txt)) (upper U term) max_skip)"
  by (simp add: find_els_def Let_def findall_letters_def concat_singletons els_foldl_eq
      els_hits_def)

lemma els_hits_mem:
  assumes "(k, s) \<in> set (els_hits cu tu max_skip)"
  shows "1 \<le> k \<and> k \<le> max_skip \<and> s < length cu \<and> els_fits cu tu k s \<and> els_spells cu tu k s"
proof -
  from assms have k: "1 \<le> k" "k \<le> max_skip"
    and s: "s \<in> set (takeWhile (els_fits cu tu k) [0..<length cu])"
    and sp: "els_spells cu tu k s"
    by (auto simp: els_hits_def)
  from s have "s \<in> set [0..<length cu]" "els_fits cu tu k s"
    by (auto dest: set_takeWhileD)
  with k sp show ?thesis by simp
qed

lemma upper_map_hd:
  "upper_single U s \<Longrightarrow> upper U s = map (\<lambda>c. hd (to_upper U c)) s"
  unfolding upper_single_def
proof (induction s)
  case Nil
  show ?case by (simp add: upper_def)
next
  case (Cons c s)
  from Cons.prems have "length (to_upper U c) = 1" by simp
  then have "to_upper U c = [hd (to_upper U c)]"
    by (cases "to_upper U c") simp_all
  moreover from Cons have "upper U s = map (\<lambda>c. hd (to_upper U c)) s" by simp
  ultimately show ?case by (simp add: upper_def)
qed

lemma upper_append: "upper U (a @ b) = upper U a @ upper U b"
  by (simp add: upper_def)

lemma els_hits_Suc:
  "els_hits cu tu (Suc m) =
     els_hits cu tu m @ map (Pair (Suc m))
       (filter (els_spells cu tu (Suc m)) (takeWhile (els_fits cu tu (Suc m)) [0..<length cu]))"
  by (simp add: els_hits_def)

lemma els_hits_0: "els_hits cu tu 0 = []"
  by (simp add: els_hits_def)

lemma els_hits_sorted:
  "sorted_wrt (\<lambda>(k, s) (k', s'). k < k' \<or> (k = k' \<and> s < s')) (els_hits cu tu m)"
proof (induction m)
  case 0
  show ?case by (simp add: els_hits_0)
next
  case (Suc m)
  have "sorted_wrt (<) (takeWhile (els_fits cu tu (Suc m)) [0..<length cu])"
    by (metis sorted_wrt_take takeWhile_eq_take sorted_wrt_upt)
  then have "sorted_wrt (<) (filter (els_spells cu tu (Suc m))
                (takeWhile (els_fits cu tu (Suc m)) [0..<length cu]))"
    by (rule sorted_wrt_filter)
  then have inner: "sorted_wrt (\<lambda>(k, s) (k', s'). k < k' \<or> (k = k' \<and> s < s'))
      (map (Pair (Suc m)) (filter (els_spells cu tu (Suc m))
                (takeWhile (els_fits cu tu (Suc m)) [0..<length cu])))"
    by (simp add: sorted_wrt_map)
  have cross: "\<forall>x\<in>set (els_hits cu tu m). fst x \<le> m"
    using els_hits_mem[of _ _ cu tu m] by auto
  show ?case
    unfolding els_hits_Suc sorted_wrt_append
    using Suc.IH inner cross by fastforce
qed

text \<open>
  C7. The results of \<open>find_els\<close> are the results built at a list of \<open>(skip, start)\<close>
  pairs that is strictly increasing in the lexicographic order: increasing skip and, for
  equal skip, increasing start index, the order in which the double loop visits them.
\<close>

theorem find_els_order:
  "\<exists>hits. find_els U txt term max_skip =
            map (els_result_at (filter is_ascii_letter txt) (length (upper U term))) hits
        \<and> sorted_wrt (\<lambda>(k, s) (k', s'). k < k' \<or> (k = k' \<and> s < s')) hits"
  using find_els_hits els_hits_sorted by blast

text \<open>
  C1 (amended). Every result \<open>r\<close> of \<open>find_els\<close> has a skip between 1 and the upper
  bound; its positions are \<open>start, start + skip, \<dots>\<close>, one for each character of the
  UPPERCASED term (which is the length of the term itself when uppercasing maps each of
  its characters to one character), the last sampled index lies inside the cleaned
  string, and the characters of the cleaned string at the positions, uppercased, spell
  the uppercased term. The hypothesis on the table holds of Python's: an ASCII letter
  has a one-character uppercase.
\<close>

theorem find_els_sound:
  assumes up: "letters_upper_single U"
    and r: "r \<in> set (find_els U txt term max_skip)"
  shows "1 \<le> skip r \<and> skip r \<le> max_skip
       \<and> cleaned r = filter is_ascii_letter txt
       \<and> length (positions r) = length (upper U term)
       \<and> (upper_single U term \<longrightarrow> length (positions r) = length term)
       \<and> (\<exists>start. positions r = map (\<lambda>i. start + i * skip r) [0..<length (upper U term)]
             \<and> int start + (int (length (upper U term)) - 1) * int (skip r)
                 < int (length (cleaned r)))
       \<and> (\<forall>i. Suc i < length (positions r) \<longrightarrow> positions r ! Suc i = positions r ! i + skip r)
       \<and> (\<forall>p\<in>set (positions r). p < length (cleaned r))
       \<and> upper U (map (\<lambda>p. cleaned r ! p) (positions r)) = upper U term"
proof -
  define cl where "cl = filter is_ascii_letter txt"
  define tu where "tu = upper U term"
  define cu where "cu = upper U cl"
  from r obtain k s where ks: "(k, s) \<in> set (els_hits cu tu max_skip)"
    and r_eq: "r = els_result_at cl (length tu) (k, s)"
    unfolding find_els_hits cl_def tu_def cu_def by auto
  from els_hits_mem[OF ks] have k: "1 \<le> k" "k \<le> max_skip"
    and fits: "els_fits cu tu k s" and spells: "els_spells cu tu k s"
    by simp_all
  have letters: "upper_single U cl"
    using up by (simp add: cl_def upper_single_def letters_upper_single_def)
  have cu_map: "cu = map (\<lambda>c. hd (to_upper U c)) cl"
    unfolding cu_def by (rule upper_map_hd[OF letters])
  then have len: "length cu = length cl" by simp
  have bound: "s + i * k < length cl" if "i < length tu" for i
  proof -
    from that have "int i \<le> int (length tu) - 1" by simp
    then have "int i * int k \<le> (int (length tu) - 1) * int k"
      by (rule mult_right_mono) simp
    with fits len have "int s + int i * int k < int (length cl)"
      by (simp add: els_fits_def)
    then show ?thesis by (metis of_nat_add of_nat_less_iff of_nat_mult)
  qed
  have pos: "positions r = map (\<lambda>i. s + i * k) [0..<length tu]" and sk: "skip r = k"
    and clr: "cleaned r = cl"
    by (simp_all add: r_eq els_result_at_def)
  have inb: "\<forall>p\<in>set (positions r). p < length (cleaned r)"
    using bound by (auto simp: pos clr)
  have "upper_single U (map (\<lambda>p. cl ! p) (positions r))"
    using inb letters by (auto simp: clr upper_single_def)
  then have "upper U (map (\<lambda>p. cl ! p) (positions r))
          = map (\<lambda>c. hd (to_upper U c)) (map (\<lambda>p. cl ! p) (positions r))"
    by (rule upper_map_hd)
  then have "upper U (map (\<lambda>p. cleaned r ! p) (positions r))
          = map (\<lambda>c. hd (to_upper U c)) (map (\<lambda>p. cl ! p) (positions r))"
    by (simp add: clr)
  also have "\<dots> = map (\<lambda>i. cu ! (s + i * k)) [0..<length tu]"
    using bound by (simp add: pos cu_map)
  also have "\<dots> = tu" using spells by (simp add: els_spells_def)
  finally have spelled: "upper U (map (\<lambda>p. cleaned r ! p) (positions r)) = tu" .
  have termlen: "length tu = length term" if "upper_single U term"
    using upper_map_hd[OF that] by (simp add: tu_def)
  have start: "\<exists>start. positions r = map (\<lambda>i. start + i * skip r) [0..<length tu]
             \<and> int start + (int (length tu) - 1) * int (skip r) < int (length (cleaned r))"
    using fits len by (intro exI[of _ s]) (simp add: pos sk clr els_fits_def)
  have step: "\<forall>i. Suc i < length (positions r) \<longrightarrow> positions r ! Suc i = positions r ! i + skip r"
    by (simp add: pos sk)
  show ?thesis
    using k inb spelled termlen start step
    by (simp add: sk clr pos flip: tu_def cl_def)
qed


theorem find_els_sound_witness:
  "letters_upper_single latin_tables
   \<and> \<lparr>skip = 1, positions = [1, 2], cleaned = cps ''Miss''\<rparr>
         \<in> set (find_els latin_tables (cps ''Miss'') (cps ''is'') 3)
   \<and> upper latin_tables (map (\<lambda>p. cps ''Miss'' ! p) [1, 2]) = upper latin_tables (cps ''is'')"
proof -
  have h1: "letters_upper_single latin_tables"
    by (simp add: letters_upper_single_def is_ascii_letter_def latin_tables_def)
  have h2: "\<lparr>skip = 1, positions = [1, 2], cleaned = cps ''Miss''\<rparr>
         \<in> set (find_els latin_tables (cps ''Miss'') (cps ''is'') 3)"
    by code_simp
  from find_els_sound[OF h1 h2] h1 h2 show ?thesis by simp
qed

text \<open>
  C1 as stated fails where uppercasing lengthens the term: for the one-character term
  U+00DF, whose uppercase is \<open>SS\<close>, the verse text \<open>Miss\<close> yields a result with two
  positions.
\<close>

theorem find_els_term_length_counterexample:
  "find_els latin_tables (cps ''Miss'') [223] 50
     = [\<lparr>skip = 1, positions = [2, 3], cleaned = cps ''Miss''\<rparr>]
   \<and> length (positions \<lparr>skip = 1, positions = [2, 3], cleaned = cps ''Miss''\<rparr>)
       \<noteq> length [223 :: codepoint]"
proof -
  have "find_els latin_tables (cps ''Miss'') [223] 50
     = [\<lparr>skip = 1, positions = [2, 3], cleaned = cps ''Miss''\<rparr>]"
    by code_simp
  then show ?thesis by simp
qed

section \<open>Properties of the direct and the reversed matcher\<close>

lemma occurs_at_prefix: "occurs_at s sub p \<longleftrightarrow> p \<le> length s \<and> prefix sub (drop p s)"
proof
  assume o: "occurs_at s sub p"
  then have "take (length sub) (drop p s) = sub"
    by (simp add: occurs_at_def slice_def drop_take)
  then have "prefix sub (drop p s)" by (metis take_is_prefix)
  with o show "p \<le> length s \<and> prefix sub (drop p s)" by (simp add: occurs_at_def)
next
  assume a: "p \<le> length s \<and> prefix sub (drop p s)"
  then obtain r where r: "drop p s = sub @ r" by (auto simp: prefix_def)
  then have "length (drop p s) = length sub + length r" by simp
  then have "length s - p = length sub + length r" by simp
  with a have len: "p + length sub \<le> length s" by arith
  from r have "take (length sub) (drop p s) = sub" by simp
  with len show "occurs_at s sub p" by (simp add: occurs_at_def slice_def drop_take)
qed

lemma find_at_Some:
  "find_at sub s i = Some j \<Longrightarrow>
     i \<le> j \<and> j - i \<le> length s \<and> prefix sub (drop (j - i) s) \<and> (\<forall>q<j - i. \<not> prefix sub (drop q s))"
proof (induction s arbitrary: i)
  case Nil
  then show ?case by (auto split: if_splits)
next
  case (Cons c cs)
  show ?case
  proof (cases "prefix sub (c # cs)")
    case True
    with Cons.prems show ?thesis by simp
  next
    case False
    with Cons.prems have f: "find_at sub cs (Suc i) = Some j" by simp
    from Cons.IH[OF f] have ih: "Suc i \<le> j" "j - Suc i \<le> length cs" "prefix sub (drop (j - Suc i) cs)"
      "\<forall>q<j - Suc i. \<not> prefix sub (drop q cs)" by simp_all
    from ih(1) have ji: "j - i = Suc (j - Suc i)" by simp
    have "\<not> prefix sub (drop q (c # cs))" if "q < j - i" for q
    proof (cases q)
      case 0
      with False show ?thesis by simp
    next
      case (Suc q')
      with that ji have "q' < j - Suc i" by simp
      with ih(4) Suc show ?thesis by simp
    qed
    with ih ji show ?thesis by simp
  qed
qed

lemma find_at_None:
  "find_at sub s i = None \<Longrightarrow> q \<le> length s \<Longrightarrow> \<not> prefix sub (drop q s)"
proof (induction s arbitrary: i q)
  case Nil
  then show ?case by (auto split: if_splits)
next
  case (Cons c cs)
  from Cons.prems(1) have np: "\<not> prefix sub (c # cs)" and f: "find_at sub cs (Suc i) = None"
    by (simp_all split: if_splits)
  show ?case
  proof (cases q)
    case 0
    with np show ?thesis by simp
  next
    case (Suc q')
    with Cons.prems(2) have "q' \<le> length cs" by simp
    from Cons.IH[OF f this] Suc show ?thesis by simp
  qed
qed

lemma str_find_Some:
  assumes "str_find s sub lo = Some j"
  shows "lo \<le> j" "occurs_at s sub j" "\<And>q. lo \<le> q \<Longrightarrow> q < j \<Longrightarrow> \<not> occurs_at s sub q"
proof -
  from assms have lo: "lo \<le> length s" and f: "find_at sub (drop lo s) lo = Some j"
    by (simp_all add: str_find_def split: if_splits)
  from find_at_Some[OF f] have j: "lo \<le> j" "j - lo \<le> length (drop lo s)"
    "prefix sub (drop (j - lo) (drop lo s))" "\<forall>q<j - lo. \<not> prefix sub (drop q (drop lo s))"
    by blast+
  show "lo \<le> j" by fact
  from j(1) have dd: "drop (j - lo) (drop lo s) = drop j s" by simp
  from j(1,2) lo have "j \<le> length s" by simp
  with j(3) show "occurs_at s sub j" unfolding dd by (simp add: occurs_at_prefix)
  fix q assume q: "lo \<le> q" "q < j"
  then have "q - lo < j - lo" by simp
  with j(4) have "\<not> prefix sub (drop (q - lo) (drop lo s))" by blast
  moreover from q have "drop (q - lo) (drop lo s) = drop q s" by simp
  ultimately show "\<not> occurs_at s sub q" by (simp add: occurs_at_prefix)
qed

lemma str_find_None:
  assumes "str_find s sub lo = None" "lo \<le> q"
  shows "\<not> occurs_at s sub q"
proof (cases "q \<le> length s")
  case False
  then show ?thesis by (simp add: occurs_at_def)
next
  case True
  with assms have f: "find_at sub (drop lo s) lo = None"
    by (simp add: str_find_def split: if_splits)
  from True assms(2) have "q - lo \<le> length (drop lo s)" by simp
  from find_at_None[OF f this] have "\<not> prefix sub (drop (q - lo) (drop lo s))" .
  moreover from assms(2) have "drop (q - lo) (drop lo s) = drop q s" by simp
  ultimately show ?thesis by (simp add: occurs_at_prefix)
qed

lemma str_find_empty: "i \<le> length s \<Longrightarrow> str_find s [] i = Some i"
  by (cases "drop i s") (simp_all add: str_find_def)

lemma scan_matches_greedy:
  assumes "sub \<noteq> []"
  shows "\<exists>ms'. scan_matches s sub (str_find s sub lo) ms = Some (ms @ ms') \<and> greedy_cover s sub lo ms'"
proof (induction "Suc (length s) - lo" arbitrary: lo ms rule: less_induct)
  case less
  show ?case
  proof (cases "str_find s sub lo")
    case None
    then have "scan_matches s sub (str_find s sub lo) ms = Some (ms @ [])"
      by (simp add: scan_matches.simps)
    moreover from None have "greedy_cover s sub lo []"
      by (simp add: str_find_None)
    ultimately show ?thesis by blast
  next
    case (Some i)
    note f = str_find_Some[OF Some]
    from f(2) have "i + length sub \<le> length s" by (simp add: occurs_at_def)
    with f(1) assms have "Suc (length s) - (i + length sub) < Suc (length s) - lo"
      by (cases sub) simp_all
    from less[OF this, of "ms @ [(i, length sub)]"]
    obtain ms' where ms': "scan_matches s sub (str_find s sub (i + length sub)) (ms @ [(i, length sub)])
         = Some ((ms @ [(i, length sub)]) @ ms')" "greedy_cover s sub (i + length sub) ms'"
      by blast
    have "scan_matches s sub (str_find s sub lo) ms = Some (ms @ ((i, length sub) # ms'))"
      using Some ms'(1) by (subst scan_matches.simps) simp
    moreover have "greedy_cover s sub lo ((i, length sub) # ms')"
      using f ms'(2) by simp
    ultimately show ?thesis by blast
  qed
qed

lemma scan_matches_empty_needle:
  assumes "scan_matches s sub idx ms = Some r"
  shows "\<not> (sub = [] \<and> (\<exists>i. idx = Some i \<and> i \<le> length s))"
  using assms
proof (induction rule: scan_matches.raw_induct[rotated 1, consumes 1])
  case (1 scan text_u term_u idx matches r)
  show ?case
  proof
    assume a: "term_u = [] \<and> (\<exists>i. idx = Some i \<and> i \<le> length text_u)"
    then obtain i where i: "idx = Some i" "i \<le> length text_u" and e: "term_u = []" by blast
    with 1(2) have "scan text_u [] (Some i) (matches @ [(i, 0)]) = Some r"
      by (simp add: str_find_empty)
    from 1(1)[OF this] i show False by simp
  qed
qed

lemma scan_matches_None: "scan_matches s sub None ms = Some ms"
  by (simp add: scan_matches.simps)

lemma scan_matches_Some:
  "scan_matches s sub (Some i) ms =
     scan_matches s sub (str_find s sub (i + length sub)) (ms @ [(i, length sub)])"
  by (subst scan_matches.simps) simp

lemma greedy_cover_props:
  assumes "greedy_cover s sub lo ms"
  shows "sorted_wrt (\<lambda>(a, l) (a', l'). a + l \<le> a') ms
       \<and> (\<forall>(a, l)\<in>set ms. lo \<le> a \<and> l = length sub \<and> occurs_at s sub a)
       \<and> (\<forall>p\<ge>lo. occurs_at s sub p \<longrightarrow> (\<exists>(a, l)\<in>set ms. a \<le> p \<and> p < a + l))"
  using assms
proof (induction ms arbitrary: lo)
  case Nil
  then show ?case by simp
next
  case (Cons m ms)
  obtain i l where m: "m = (i, l)" by (cases m)
  from Cons.prems have h: "lo \<le> i" "l = length sub" "occurs_at s sub i"
    "\<forall>q. lo \<le> q \<and> q < i \<longrightarrow> \<not> occurs_at s sub q" "greedy_cover s sub (i + l) ms"
    unfolding m greedy_cover.simps by blast+
  from Cons.IH[OF h(5)] have ih: "sorted_wrt (\<lambda>(a, l) (a', l'). a + l \<le> a') ms"
    "\<forall>(a, l')\<in>set ms. i + l \<le> a \<and> l' = length sub \<and> occurs_at s sub a"
    "\<forall>p\<ge>i + l. occurs_at s sub p \<longrightarrow> (\<exists>(a, l)\<in>set ms. a \<le> p \<and> p < a + l)"
    by blast+
  have 1: "sorted_wrt (\<lambda>(a, l) (a', l'). a + l \<le> a') (m # ms)"
    using ih(1,2) by (auto simp: m)
  have 2: "\<forall>(a, l)\<in>set (m # ms). lo \<le> a \<and> l = length sub \<and> occurs_at s sub a"
    using h(1,2,3) ih(2) by (auto simp: m)
  have 3: "\<exists>(a, l)\<in>set (m # ms). a \<le> p \<and> p < a + l" if p: "lo \<le> p" "occurs_at s sub p" for p
  proof -
    from p h(4) have "i \<le> p" by (meson not_le)
    show ?thesis
    proof (cases "p < i + l")
      case True
      with \<open>i \<le> p\<close> show ?thesis by (simp add: m)
    next
      case False
      then have "i + l \<le> p" by simp
      with ih(3) p(2) show ?thesis by auto
    qed
  qed
  from 1 2 3 show ?case by blast
qed

lemma upper_single_slice: "upper_single U s \<Longrightarrow> upper_single U (slice s i j)"
  unfolding upper_single_def slice_def
  by (meson in_set_dropD in_set_takeD)

lemma upper_slice:
  assumes "upper_single U s"
  shows "upper U (slice s i j) = slice (upper U s) i j"
proof -
  have "upper U (slice s i j) = map (\<lambda>c. hd (to_upper U c)) (slice s i j)"
    by (rule upper_map_hd[OF upper_single_slice[OF assms]])
  also have "\<dots> = slice (map (\<lambda>c. hd (to_upper U c)) s) i j"
    by (simp add: slice_def take_map drop_map)
  finally show ?thesis by (simp add: upper_map_hd[OF assms])
qed

lemma upper_length: "upper_single U s \<Longrightarrow> length (upper U s) = length s"
  by (simp add: upper_map_hd)

lemma occurs_upper:
  assumes "upper_single U txt" "length (upper U w) = length w"
  shows "occurs_at (upper U txt) (upper U w) p \<longleftrightarrow> ci_occurs U txt w p"
  by (simp add: occurs_at_def ci_occurs_def upper_slice[OF assms(1)] upper_length[OF assms(1)]
      assms(2))

lemma upper_rev: "upper_single U w \<Longrightarrow> upper U (rev w) = rev (upper U w)"
proof -
  assume a: "upper_single U w"
  then have "upper_single U (rev w)" by (simp add: upper_single_def)
  from upper_map_hd[OF this] upper_map_hd[OF a] show ?thesis by (simp add: rev_map)
qed

lemma upper_eq_Nil: "upper_nonempty U \<Longrightarrow> upper U w = [] \<longleftrightarrow> w = []"
  by (cases w) (auto simp: upper_def upper_nonempty_def)

lemma scan_from_start_diverges: "scan_matches s [] (str_find s [] 0) [] = None"
proof (cases "scan_matches s [] (str_find s [] 0) []")
  case None
  then show ?thesis .
next
  case (Some r)
  from scan_matches_empty_needle[OF Some] show ?thesis by (simp add: str_find_empty)
qed

text \<open>
  C2 (amended). For a non-empty term and a text such that uppercasing maps every
  character of both to one character (as it does for ASCII strings), \<open>find_direct\<close>
  returns, and returns the leftmost-first non-overlapping occurrences of the term as a
  case-insensitive substring: the intervals are sorted by start and do not overlap,
  each has the length of the term and lies inside the original text, the slice of the
  original text it denotes equals the term when both are uppercased, and every offset
  at which the term occurs case-insensitively lies inside a returned interval (so no
  occurrence was passed over on the left).
\<close>

theorem find_direct_correct:
  assumes "term \<noteq> []" and "upper_single U txt" and "upper_single U term"
  shows "\<exists>ms. find_direct U txt term = Some ms
           \<and> sorted_wrt (\<lambda>(s, l) (s', l'). s + l \<le> s') ms
           \<and> (\<forall>(s, l)\<in>set ms. l = length term \<and> s + l \<le> length txt
                  \<and> upper U (slice txt s (s + l)) = upper U term)
           \<and> (\<forall>p. ci_occurs U txt term p \<longrightarrow> (\<exists>(s, l)\<in>set ms. s \<le> p \<and> p < s + l))"
proof -
  have len: "length (upper U term) = length term" by (rule upper_length[OF assms(3)])
  with assms(1) have ne: "upper U term \<noteq> []" by auto
  from scan_matches_greedy[OF ne, of "upper U txt" 0 "[]"]
  obtain ms where ms: "find_direct U txt term = Some ms"
      "greedy_cover (upper U txt) (upper U term) 0 ms"
    by (auto simp: find_direct_def)
  note p = greedy_cover_props[OF ms(2)]
  note occ = occurs_upper[OF assms(2) len]
  from p have 1: "sorted_wrt (\<lambda>(s, l) (s', l'). s + l \<le> s') ms" by blast
  from p have "\<forall>(s, l)\<in>set ms. l = length term \<and> ci_occurs U txt term s"
    unfolding occ len by blast
  then have 2: "\<forall>(s, l)\<in>set ms. l = length term \<and> s + l \<le> length txt
                  \<and> upper U (slice txt s (s + l)) = upper U term"
    by (auto simp: ci_occurs_def)
  from p have 3: "\<forall>p. ci_occurs U txt term p \<longrightarrow> (\<exists>(s, l)\<in>set ms. s \<le> p \<and> p < s + l)"
    unfolding occ by blast
  from ms(1) 1 2 3 show ?thesis by blast
qed

theorem find_direct_correct_witness:
  "cps ''GO'' \<noteq> [] \<and> upper_single latin_tables (cps ''God is good'')
   \<and> upper_single latin_tables (cps ''GO'')
   \<and> find_direct latin_tables (cps ''God is good'') (cps ''GO'') = Some [(0, 2), (7, 2)]
   \<and> sorted_wrt (\<lambda>(s, l) (s', l'). s + l \<le> s') [(0 :: nat, 2 :: nat), (7, 2)]"
proof -
  have h1: "cps ''GO'' \<noteq> []" by (simp add: cps_def)
  have h2: "upper_single latin_tables (cps ''God is good'')"
    by (simp add: upper_single_def latin_tables_def cps_def)
  have h3: "upper_single latin_tables (cps ''GO'')"
    by (simp add: upper_single_def latin_tables_def cps_def)
  have ev: "find_direct latin_tables (cps ''God is good'') (cps ''GO'') = Some [(0, 2), (7, 2)]"
    by (simp add: find_direct_def upper_def latin_tables_def cps_def str_find_def
        scan_matches_None scan_matches_Some)
  from find_direct_correct[OF h1 h2 h3] obtain ms
    where "find_direct latin_tables (cps ''God is good'') (cps ''GO'') = Some ms"
      and "sorted_wrt (\<lambda>(s, l) (s', l'). s + l \<le> s') ms"
    by blast
  with ev have "sorted_wrt (\<lambda>(s, l) (s', l'). s + l \<le> s') [(0 :: nat, 2 :: nat), (7, 2)]"
    by simp
  with h1 h2 h3 ev show ?thesis by blast
qed

text \<open>
  C2 as stated fails in two ways. Uppercasing can lengthen the text, and the offsets
  are offsets into the uppercased text: in \<open>Stra\<ss>e God\<close> (U+00DF uppercases to \<open>SS\<close>)
  the term \<open>GOD\<close> is reported at offset 8, where the original text reads \<open>od\<close>. And for
  the empty term the matcher does not return.
\<close>

theorem find_direct_counterexample:
  "find_direct latin_tables (cps ''Stra'' @ [223] @ cps ''e God'') (cps ''GOD'') = Some [(8, 3)]
   \<and> upper latin_tables (slice (cps ''Stra'' @ [223] @ cps ''e God'') 8 (8 + 3))
       \<noteq> upper latin_tables (cps ''GOD'')
   \<and> find_direct latin_tables (cps ''God'') [] = None"
proof -
  have 1: "find_direct latin_tables (cps ''Stra'' @ [223] @ cps ''e God'') (cps ''GOD'')
             = Some [(8, 3)]"
    by (simp add: find_direct_def upper_def latin_tables_def cps_def str_find_def
        scan_matches_None scan_matches_Some)
  have 2: "upper latin_tables (slice (cps ''Stra'' @ [223] @ cps ''e God'') 8 (8 + 3))
       \<noteq> upper latin_tables (cps ''GOD'')"
    by (simp add: slice_def upper_def latin_tables_def cps_def)
  have 3: "find_direct latin_tables (cps ''God'') [] = None"
    by (simp add: find_direct_def upper_def scan_from_start_diverges)
  from 1 2 3 show ?thesis by blast
qed

text \<open>
  C3 (amended). Under the same hypotheses \<open>find_reversed\<close> returns what \<open>find_direct\<close>
  returns for the reversed term: the leftmost-first non-overlapping intervals of the
  forward text whose slice equals the reversed term when both are uppercased. (The
  code uppercases the term and then reverses it; when uppercasing maps each character
  of the term to one character this is the uppercased reversed term.)
\<close>

theorem find_reversed_correct:
  assumes "term \<noteq> []" and "upper_single U txt" and "upper_single U term"
  shows "\<exists>ms. find_reversed U txt term = Some ms
           \<and> find_direct U txt (rev term) = Some ms
           \<and> sorted_wrt (\<lambda>(s, l) (s', l'). s + l \<le> s') ms
           \<and> (\<forall>(s, l)\<in>set ms. l = length term \<and> s + l \<le> length txt
                  \<and> upper U (slice txt s (s + l)) = upper U (rev term))
           \<and> (\<forall>p. ci_occurs U txt (rev term) p \<longrightarrow> (\<exists>(s, l)\<in>set ms. s \<le> p \<and> p < s + l))"
proof -
  have rv: "rev (upper U term) = upper U (rev term)" by (rule upper_rev[OF assms(3), symmetric])
  have len: "length (upper U (rev term)) = length (rev term)"
    using upper_length[OF assms(3)] by (simp flip: rv)
  with assms(1) have ne: "upper U (rev term) \<noteq> []" by auto
  from scan_matches_greedy[OF ne, of "upper U txt" 0 "[]"]
  obtain ms where ms: "find_reversed U txt term = Some ms"
      "greedy_cover (upper U txt) (upper U (rev term)) 0 ms"
    by (auto simp: find_reversed_def rv)
  from ms(1) have d: "find_direct U txt (rev term) = Some ms"
    by (simp add: find_reversed_def find_direct_def rv)
  note p = greedy_cover_props[OF ms(2)]
  note occ = occurs_upper[OF assms(2) len]
  from p have 1: "sorted_wrt (\<lambda>(s, l) (s', l'). s + l \<le> s') ms" by blast
  from p have "\<forall>(s, l)\<in>set ms. l = length (rev term) \<and> ci_occurs U txt (rev term) s"
    unfolding occ len by blast
  then have 2: "\<forall>(s, l)\<in>set ms. l = length term \<and> s + l \<le> length txt
                  \<and> upper U (slice txt s (s + l)) = upper U (rev term)"
    by (auto simp: ci_occurs_def)
  from p have 3: "\<forall>p. ci_occurs U txt (rev term) p \<longrightarrow> (\<exists>(s, l)\<in>set ms. s \<le> p \<and> p < s + l)"
    unfolding occ by blast
  from ms(1) d 1 2 3 show ?thesis by blast
qed

theorem find_reversed_correct_witness:
  "cps ''dog'' \<noteq> [] \<and> upper_single latin_tables (cps ''God is good'')
   \<and> upper_single latin_tables (cps ''dog'')
   \<and> find_reversed latin_tables (cps ''God is good'') (cps ''dog'') = Some [(0, 3)]
   \<and> find_direct latin_tables (cps ''God is good'') (rev (cps ''dog'')) = Some [(0, 3)]"
proof -
  have h1: "cps ''dog'' \<noteq> []" by (simp add: cps_def)
  have h2: "upper_single latin_tables (cps ''God is good'')"
    by (simp add: upper_single_def latin_tables_def cps_def)
  have h3: "upper_single latin_tables (cps ''dog'')"
    by (simp add: upper_single_def latin_tables_def cps_def)
  have ev: "find_reversed latin_tables (cps ''God is good'') (cps ''dog'') = Some [(0, 3)]"
    by (simp add: find_reversed_def upper_def latin_tables_def cps_def str_find_def
        scan_matches_None scan_matches_Some)
  from find_reversed_correct[OF h1 h2 h3] obtain ms
    where "find_reversed latin_tables (cps ''God is good'') (cps ''dog'') = Some ms"
      and "find_direct latin_tables (cps ''God is good'') (rev (cps ''dog'')) = Some ms"
    by blast
  with ev have "find_direct latin_tables (cps ''God is good'') (rev (cps ''dog'')) = Some [(0, 3)]"
    by simp
  with h1 h2 h3 ev show ?thesis by blast
qed

text \<open>
  C3 as stated fails in the same two ways as C2: in \<open>Stra\<ss>e God\<close> the term \<open>DOG\<close> is
  reported at offset 8 of the forward text, which reads \<open>od\<close> there, and for the empty
  term the matcher does not return.
\<close>

theorem find_reversed_counterexample:
  "find_reversed latin_tables (cps ''Stra'' @ [223] @ cps ''e God'') (cps ''DOG'') = Some [(8, 3)]
   \<and> upper latin_tables (slice (cps ''Stra'' @ [223] @ cps ''e God'') 8 (8 + 3))
       \<noteq> upper latin_tables (rev (cps ''DOG''))
   \<and> find_reversed latin_tables (cps ''God'') [] = None"
proof -
  have 1: "find_reversed latin_tables (cps ''Stra'' @ [223] @ cps ''e God'') (cps ''DOG'')
             = Some [(8, 3)]"
    by (simp add: find_reversed_def upper_def latin_tables_def cps_def str_find_def
        scan_matches_None scan_matches_Some)
  have 2: "upper latin_tables (slice (cps ''Stra'' @ [223] @ cps ''e God'') 8 (8 + 3))
       \<noteq> upper latin_tables (rev (cps ''DOG''))"
    by (simp add: slice_def upper_def latin_tables_def cps_def)
  have 3: "find_reversed latin_tables (cps ''God'') [] = None"
    by (simp add: find_reversed_def upper_def scan_from_start_diverges)
  from 1 2 3 show ?thesis by blast
qed

text \<open>
  C9. The scan loops of \<open>find_direct\<close> and \<open>find_reversed\<close> terminate for every text when
  the term is non-empty, and never terminate when the term is empty: the search then
  resumes at \<open>idx + 0\<close> and finds the empty string there again. (No character has an
  empty uppercase in Python's table, so a non-empty term has a non-empty uppercase.)
\<close>

theorem scan_termination:
  assumes "upper_nonempty U"
  shows "(term \<noteq> [] \<longrightarrow> (\<exists>ms. find_direct U txt term = Some ms)
                       \<and> (\<exists>ms. find_reversed U txt term = Some ms))
       \<and> (term = [] \<longrightarrow> find_direct U txt term = None \<and> find_reversed U txt term = None)"
proof (cases "term = []")
  case True
  then show ?thesis
    by (simp add: find_direct_def find_reversed_def upper_def scan_from_start_diverges)
next
  case False
  with assms have ne: "upper U term \<noteq> []" by (simp add: upper_eq_Nil)
  then have ner: "rev (upper U term) \<noteq> []" by simp
  from scan_matches_greedy[OF ne, of "upper U txt" 0 "[]"]
  have 1: "\<exists>ms. find_direct U txt term = Some ms" by (auto simp: find_direct_def)
  from scan_matches_greedy[OF ner, of "upper U txt" 0 "[]"]
  have 2: "\<exists>ms. find_reversed U txt term = Some ms" by (auto simp: find_reversed_def)
  from False 1 2 show ?thesis by simp
qed

theorem scan_termination_witness:
  "upper_nonempty latin_tables
   \<and> (\<exists>ms. find_direct latin_tables (cps ''God is good'') (cps ''go'') = Some ms)
   \<and> (\<exists>ms. find_reversed latin_tables (cps ''God is good'') (cps ''go'') = Some ms)
   \<and> find_direct latin_tables (cps ''God is good'') [] = None
   \<and> find_reversed latin_tables (cps ''God is good'') [] = None"
proof -
  have h: "upper_nonempty latin_tables"
    by (simp add: upper_nonempty_def latin_tables_def)
  have ne: "cps ''go'' \<noteq> []" by (simp add: cps_def)
  from scan_termination[OF h, of "cps ''go''" "cps ''God is good''"] ne
    scan_termination[OF h, of "[]" "cps ''God is good''"] h
  show ?thesis by simp
qed

section \<open>Properties of the highlighter\<close>

lemma str_replace_single:
  "str_replace [c] new s = concat (map (\<lambda>x. if x = c then new else [x]) s)"
proof (induction s)
  case Nil
  show ?case by (rule trans[OF str_replace.simps]) simp
next
  case (Cons x s)
  have "str_replace [c] new (x # s)
          = (if x = c then new @ str_replace [c] new s else x # str_replace [c] new s)"
    by (rule trans[OF str_replace.simps]) auto
  with Cons.IH show ?case by simp
qed

lemma escape_html_Nil: "escape_html [] = []"
  by (simp add: escape_html_def cps_def str_replace_single)

lemma escape_html_Cons: "escape_html (c # t) = esc_char c @ escape_html t"
  by (simp add: escape_html_def cps_def str_replace_single esc_char_def)

lemma escape_html_append: "escape_html (a @ b) = escape_html a @ escape_html b"
  by (induction a) (simp_all add: escape_html_Nil escape_html_Cons)

lemma lt_notin_esc_char: "60 \<notin> set (esc_char c)"
  by (simp add: esc_char_def cps_def)

lemma lt_notin_escape_html: "60 \<notin> set (escape_html t)"
  by (induction t) (simp_all add: escape_html_Nil escape_html_Cons lt_notin_esc_char)

lemma unescape_esc_char: "unescape_html (esc_char c @ r) = c # unescape_html r"
proof -
  consider "c = 38" | "c = 60" | "c = 62" | "c \<noteq> 38" "c \<noteq> 60" "c \<noteq> 62" by blast
  then show ?thesis
  proof cases
    case 1
    then show ?thesis by (intro trans[OF unescape_html.simps]) (simp add: esc_char_def cps_def)
  next
    case 2
    then show ?thesis by (intro trans[OF unescape_html.simps]) (simp add: esc_char_def cps_def)
  next
    case 3
    then show ?thesis by (intro trans[OF unescape_html.simps]) (simp add: esc_char_def cps_def)
  next
    case 4
    then show ?thesis by (intro trans[OF unescape_html.simps]) (simp add: esc_char_def cps_def)
  qed
qed

lemma unescape_escape: "unescape_html (escape_html t) = t"
proof (induction t)
  case Nil
  show ?case unfolding escape_html_Nil by (rule trans[OF unescape_html.simps]) simp
next
  case (Cons c t)
  then show ?case by (simp add: escape_html_Cons unescape_esc_char)
qed

lemma span_open_shape: "\<exists>r. span_open css = 60 # 115 # r"
  by (simp add: span_open_def cps_def)

lemma span_close_shape: "span_close = 60 # 47 # cps ''span>''"
  by (simp add: span_close_def cps_def)

lemma strip_markers_Nil: "strip_markers css [] = []"
  by (rule trans[OF strip_markers.simps]) simp

lemma strip_plain: "60 \<notin> set a \<Longrightarrow> strip_markers css (a @ X) = a @ strip_markers css X"
proof (induction a)
  case Nil
  show ?case by simp
next
  case (Cons c a)
  then have c: "c \<noteq> 60" by auto
  obtain r where r: "span_open css = 60 # 115 # r" using span_open_shape by blast
  from c have "strip_markers css ((c # a) @ X) = c # strip_markers css (a @ X)"
    by (intro trans[OF strip_markers.simps]) (simp add: r span_close_shape)
  with Cons show ?case by simp
qed

lemma strip_open: "strip_markers css (span_open css @ X) = strip_markers css X"
proof -
  obtain r where r: "span_open css = 60 # 115 # r" using span_open_shape by blast
  then have "span_open css \<noteq> []" by simp
  then show ?thesis by (intro trans[OF strip_markers.simps]) simp
qed

lemma strip_close: "strip_markers css (span_close @ X) = strip_markers css X"
proof -
  obtain r where r: "span_open css = 60 # 115 # r" using span_open_shape by blast
  have "\<not> prefix (span_open css) (span_close @ X)"
    by (simp add: r span_close_shape)
  moreover have "span_close \<noteq> []" by (simp add: span_close_shape)
  ultimately show ?thesis by (intro trans[OF strip_markers.simps]) simp
qed

lemma take_slice: "lo \<le> s \<Longrightarrow> take lo txt @ slice txt lo s = take s txt"
proof -
  assume "lo \<le> s"
  then have "take lo txt = take lo (take s txt)" by (simp add: min_def)
  then show ?thesis unfolding slice_def by (metis append_take_drop_id)
qed

lemma highlight_parts_strip:
  assumes "chain lo ms"
    and "\<And>X. strip_markers css (concat parts @ X) = escape_html (take lo txt) @ strip_markers css X"
    and "highlight_parts txt css ms lo parts = (parts', last')"
  shows "strip_markers css (concat parts' @ X) = escape_html (take last' txt) @ strip_markers css X"
  using assms
proof (induction ms arbitrary: lo parts X)
  case Nil
  then show ?case by simp
next
  case (Cons m ms)
  obtain s l where m: "m = (s, l)" by (cases m)
  from Cons.prems(1) have lo: "lo \<le> s" and ch: "chain (s + l) ms" by (simp_all add: m)
  define parts2 where "parts2 = (parts @ [escape_html (slice txt lo s)])
       @ [span_open css @ escape_html (slice txt s (s + l)) @ span_close]"
  from Cons.prems(3) have run: "highlight_parts txt css ms (s + l) parts2 = (parts', last')"
    by (simp add: m parts2_def Let_def)
  have t1: "take lo txt @ slice txt lo s = take s txt" by (rule take_slice[OF lo])
  have t2: "take s txt @ slice txt s (s + l) = take (s + l) txt" by (rule take_slice) simp
  have inv: "strip_markers css (concat parts2 @ Y)
               = escape_html (take (s + l) txt) @ strip_markers css Y" for Y
  proof -
    have "strip_markers css (concat parts2 @ Y)
        = strip_markers css (concat parts @ (escape_html (slice txt lo s)
            @ span_open css @ escape_html (slice txt s (s + l)) @ span_close @ Y))"
      by (simp add: parts2_def)
    also have "\<dots> = escape_html (take lo txt) @ escape_html (slice txt lo s)
            @ escape_html (slice txt s (s + l)) @ strip_markers css Y"
      by (simp add: Cons.prems(2) strip_plain[OF lt_notin_escape_html] strip_open strip_close)
    also have "\<dots> = escape_html ((take lo txt @ slice txt lo s) @ slice txt s (s + l))
            @ strip_markers css Y"
      by (simp add: escape_html_append)
    also have "\<dots> = escape_html (take (s + l) txt) @ strip_markers css Y"
      by (simp only: t1 t2)
    finally show ?thesis .
  qed
  from Cons.IH[OF ch inv run] show ?case .
qed

lemma chain_sorted:
  assumes "sorted (map fst xs)" and "distinct xs"
    and "\<forall>(s, l)\<in>set xs. 0 < l"
    and "\<forall>(s, l)\<in>set xs. \<forall>(s', l')\<in>set xs. (s, l) \<noteq> (s', l') \<longrightarrow> s + l \<le> s' \<or> s' + l' \<le> s"
    and "\<forall>x\<in>set xs. lo \<le> fst x"
  shows "chain lo xs"
  using assms
proof (induction xs arbitrary: lo)
  case Nil
  show ?case by simp
next
  case (Cons x xs)
  obtain s l where x: "x = (s, l)" by (cases x)
  have later: "s + l \<le> fst y" if y: "y \<in> set xs" for y
  proof -
    obtain s' l' where y': "y = (s', l')" by (cases y)
    from Cons.prems(1) y have le: "s \<le> s'" by (auto simp: x y')
    from Cons.prems(2) y have ne: "(s, l) \<noteq> (s', l')" by (auto simp: x y')
    from Cons.prems(3) y have pos: "0 < l'" by (auto simp: y')
    from Cons.prems(4) y ne have "s + l \<le> s' \<or> s' + l' \<le> s"
      by (fastforce simp: x y')
    with le pos show ?thesis by (simp add: y')
  qed
  have "chain (s + l) xs"
  proof (rule Cons.IH)
    show "sorted (map fst xs)" using Cons.prems(1) by simp
    show "distinct xs" using Cons.prems(2) by simp
    show "\<forall>(s, l)\<in>set xs. 0 < l" using Cons.prems(3) by simp
    show "\<forall>(s, l)\<in>set xs. \<forall>(s', l')\<in>set xs. (s, l) \<noteq> (s', l') \<longrightarrow> s + l \<le> s' \<or> s' + l' \<le> s"
      using Cons.prems(4) by auto
    show "\<forall>x\<in>set xs. s + l \<le> fst x" using later by blast
  qed
  moreover from Cons.prems(5) have "lo \<le> s" by (simp add: x)
  ultimately show ?case by (simp add: x)
qed

lemma escape_html_escaped: "escape_html t = escaped t"
  by (induction t) (simp_all add: escaped_def escape_html_Nil escape_html_Cons)

lemma highlight_parts_marked_up:
  "highlight_parts txt css ms lo parts = (parts', last') \<Longrightarrow>
     concat parts' @ escape_html (slice_from txt last') = concat parts @ marked_up txt css lo ms"
proof (induction ms arbitrary: lo parts)
  case Nil
  then show ?case by (simp add: escape_html_escaped slice_from_def)
next
  case (Cons m ms)
  obtain s l where m: "m = (s, l)" by (cases m)
  from Cons.prems
  have "highlight_parts txt css ms (s + l)
          ((parts @ [escape_html (slice txt lo s)])
            @ [span_open css @ escape_html (slice txt s (s + l)) @ span_close]) = (parts', last')"
    by (simp add: m Let_def)
  from Cons.IH[OF this] show ?case by (simp add: m escape_html_escaped)
qed

lemma highlight_text_marked_up:
  "highlight_text txt ms css = marked_up txt css 0 (sort_key fst ms)"
proof (cases "ms = []")
  case True
  then show ?thesis by (simp add: highlight_text_def escape_html_escaped)
next
  case False
  obtain parts lastp
    where run: "highlight_parts txt css (sort_key fst ms) 0 [] = (parts, lastp)"
    by (cases "highlight_parts txt css (sort_key fst ms) 0 []")
  from highlight_parts_marked_up[OF run] False run show ?thesis
    by (simp add: highlight_text_def)
qed

lemma chain_lower: "chain lo xs \<Longrightarrow> \<forall>x\<in>set xs. lo \<le> fst x"
proof (induction xs arbitrary: lo)
  case Nil
  show ?case by simp
next
  case (Cons x xs)
  obtain s l where x: "x = (s, l)" by (cases x)
  from Cons.prems have lo: "lo \<le> s" and ch: "chain (s + l) xs" by (simp_all add: x)
  from Cons.IH[OF ch] have "\<forall>y\<in>set xs. s + l \<le> fst y" .
  with lo show ?case by (auto simp: x)
qed

lemma chain_sorted_wrt: "chain lo xs \<Longrightarrow> sorted_wrt (\<lambda>(s, l) (s', l'). s + l \<le> s') xs"
proof (induction xs arbitrary: lo)
  case Nil
  show ?case by simp
next
  case (Cons x xs)
  obtain s l where x: "x = (s, l)" by (cases x)
  from Cons.prems have ch: "chain (s + l) xs" by (simp add: x)
  from chain_lower[OF ch] Cons.IH[OF ch] show ?case by (auto simp: x)
qed


lemma highlight_strip_unescape:
  assumes "intervals_ok txt matches"
  shows "unescape_html (strip_markers css_class (highlight_text txt matches css_class)) = txt"
proof (cases "matches = []")
  case True
  have "strip_markers css_class (escape_html txt) = escape_html txt"
    using strip_plain[OF lt_notin_escape_html, of css_class "txt" "[]"]
    by (simp add: strip_markers_Nil)
  with True show ?thesis by (simp add: highlight_text_def unescape_escape)
next
  case False
  obtain parts lastp
    where run: "highlight_parts txt css_class (sort_key fst matches) 0 [] = (parts, lastp)"
    by (cases "highlight_parts txt css_class (sort_key fst matches) 0 []")
  from assms have "chain 0 (sort_key fst matches)"
    by (intro chain_sorted) (auto simp: intervals_ok_def)
  from highlight_parts_strip[OF this _ run, of "escape_html (slice_from txt lastp)"]
  have "strip_markers css_class (concat parts @ escape_html (slice_from txt lastp))
          = escape_html (take lastp txt) @ strip_markers css_class (escape_html (slice_from txt lastp))"
    by (simp add: escape_html_Nil)
  also have "\<dots> = escape_html (take lastp txt) @ escape_html (slice_from txt lastp)"
    using strip_plain[OF lt_notin_escape_html, of css_class "slice_from txt lastp" "[]"]
    by (simp add: strip_markers_Nil)
  also have "\<dots> = escape_html txt"
    by (simp add: slice_from_def flip: escape_html_append)
  finally have "strip_markers css_class (highlight_text txt matches css_class) = escape_html txt"
    using False run by (simp add: highlight_text_def)
  then show ?thesis by (simp add: unescape_escape)
qed

text \<open>
  C4. For every reference string, style class and list of non-overlapping Match
  Intervals of the string (in any order), the output of \<open>highlight_text\<close> is the marked-up
  string of the intervals taken in the order of their starts: every character outside
  the intervals is replaced by its entity when it is one of \<open>&\<close>, \<open><\<close>, \<open>>\<close> and kept
  otherwise, and the content of every interval, treated the same way, stands between
  the opening marker of the style class and the closing marker. Stripping the markers
  from the output and un-escaping the three entities gives the reference string back.
\<close>

theorem highlight_round_trip:
  assumes "intervals_ok txt matches"
  shows "(\<exists>xs. set xs = set matches \<and> distinct xs
              \<and> sorted_wrt (\<lambda>(s, l) (s', l'). s + l \<le> s') xs
              \<and> highlight_text txt matches css_class = marked_up txt css_class 0 xs)
       \<and> unescape_html (strip_markers css_class (highlight_text txt matches css_class)) = txt"
proof
  from assms have ch: "chain 0 (sort_key fst matches)"
    by (intro chain_sorted) (auto simp: intervals_ok_def)
  from assms have d: "distinct (sort_key fst matches)" by (simp add: intervals_ok_def)
  have "set (sort_key fst matches) = set matches" by simp
  with d chain_sorted_wrt[OF ch] highlight_text_marked_up[of "txt" matches css_class]
  show "\<exists>xs. set xs = set matches \<and> distinct xs
              \<and> sorted_wrt (\<lambda>(s, l) (s', l'). s + l \<le> s') xs
              \<and> highlight_text txt matches css_class = marked_up txt css_class 0 xs"
    by blast
  show "unescape_html (strip_markers css_class (highlight_text txt matches css_class)) = txt"
    by (rule highlight_strip_unescape[OF assms])
qed

theorem highlight_round_trip_witness:
  "intervals_ok (cps ''a<b & God'') [(6, 3), (1, 1)]
   \<and> highlight_text (cps ''a<b & God'') [(6, 3), (1, 1)] (cps ''highlight-direct'')
       = cps ''a<span class=\"highlight-direct\">&lt;</span>b &amp; <span class=\"highlight-direct\">God</span>''
   \<and> marked_up (cps ''a<b & God'') (cps ''highlight-direct'') 0 [(1, 1), (6, 3)]
       = cps ''a<span class=\"highlight-direct\">&lt;</span>b &amp; <span class=\"highlight-direct\">God</span>''
   \<and> unescape_html (strip_markers (cps ''highlight-direct'')
         (highlight_text (cps ''a<b & God'') [(6, 3), (1, 1)] (cps ''highlight-direct'')))
       = cps ''a<b & God''"
proof -
  have h: "intervals_ok (cps ''a<b & God'') [(6, 3), (1, 1)]"
    by (simp add: intervals_ok_def cps_def)
  have e: "highlight_text (cps ''a<b & God'') [(6, 3), (1, 1)] (cps ''highlight-direct'')
       = cps ''a<span class=\"highlight-direct\">&lt;</span>b &amp; <span class=\"highlight-direct\">God</span>''"
    by code_simp
  have m: "marked_up (cps ''a<b & God'') (cps ''highlight-direct'') 0 [(1, 1), (6, 3)]
       = cps ''a<span class=\"highlight-direct\">&lt;</span>b &amp; <span class=\"highlight-direct\">God</span>''"
    by code_simp
  from highlight_round_trip[OF h] h e m show ?thesis by blast
qed

section \<open>Properties of the verse parser\<close>

lemma first_some_Some: "first_some xs = Some y \<Longrightarrow> Some y \<in> set xs"
  by (induction xs rule: first_some.induct) auto

lemma first_some_None: "first_some xs = None \<longleftrightarrow> (\<forall>x\<in>set xs. x = None)"
  by (induction xs rule: first_some.induct) auto

lemma le_takeWhile_iff:
  "k \<le> length (takeWhile P s) \<longleftrightarrow> k \<le> length s \<and> list_all P (take k s)"
proof (induction s arbitrary: k)
  case Nil
  show ?case by simp
next
  case (Cons c s)
  show ?case by (cases k) (auto simp: Cons.IH)
qed

lemma greedy_range:
  "k \<in> set (rev [mn ..< Suc (greedy_len P mx s)]) \<longleftrightarrow>
     mn \<le> k \<and> k \<le> length s \<and> list_all P (take k s) \<and> (case mx of None \<Rightarrow> True | Some b \<Rightarrow> k \<le> b)"
proof -
  have "k \<in> set (rev [mn ..< Suc (greedy_len P mx s)]) \<longleftrightarrow> mn \<le> k \<and> k \<le> greedy_len P mx s"
    by auto
  also have "k \<le> greedy_len P mx s \<longleftrightarrow>
      k \<le> length (takeWhile P s) \<and> (case mx of None \<Rightarrow> True | Some b \<Rightarrow> k \<le> b)"
    by (simp add: greedy_len_def Let_def split: option.splits)
  finally show ?thesis unfolding le_takeWhile_iff by blast
qed

lemma rmatch_complete: "derives items s cur caps res \<Longrightarrow> rmatch items s cur caps \<noteq> None"
proof (induction items arbitrary: s cur caps)
  case Nil
  then show ?case by simp
next
  case (Cons it items)
  show ?case
  proof (cases it)
    case (Cls P mn mx)
    from Cons.prems obtain a b where ab: "s = a @ b" "mn \<le> length a"
      "case mx of None \<Rightarrow> True | Some bd \<Rightarrow> length a \<le> bd" "list_all P a"
      and d: "derives items b (map_option (\<lambda>g. g @ a) cur) caps res"
      unfolding Cls derives.simps by blast
    define ks where "ks = rev [mn ..< Suc (greedy_len P mx s)]"
    define f where "f = (\<lambda>k. rmatch items (drop k s) (map_option (\<lambda>g. g @ take k s) cur) caps)"
    from ab have k: "length a \<in> set ks"
      unfolding ks_def greedy_range by simp
    from Cons.IH[OF d] ab(1) have fa: "f (length a) \<noteq> None"
      by (simp add: f_def)
    from k have "f (length a) \<in> set (map f ks)"
      by (simp only: set_map) (rule imageI)
    with fa have "first_some (map f ks) \<noteq> None"
      unfolding first_some_None by (rule_tac notI) (drule bspec, assumption, simp)
    then show ?thesis
      unfolding Cls rmatch.simps f_def ks_def .
  next
    case Open
    from Cons.prems have "derives items s (Some []) caps res" by (simp add: Open)
    from Cons.IH[OF this] show ?thesis by (simp add: Open)
  next
    case Close
    from Cons.prems
    have "derives items s None (caps @ [case cur of Some g \<Rightarrow> g | None \<Rightarrow> []]) res"
      by (simp add: Close)
    from Cons.IH[OF this] show ?thesis by (simp add: Close)
  qed
qed


lemma only_colon: "1 \<le> length a \<and> length a \<le> 1 \<and> list_all (\<lambda>c. c = 58) a \<longleftrightarrow> a = [58::nat]"
  by (cases a) auto



lemma derives_Cls_I:
  assumes "mn \<le> length a" and "case mx of None \<Rightarrow> True | Some bd \<Rightarrow> length a \<le> bd"
    and "list_all P a" and "derives r b (map_option (\<lambda>g. g @ a) cur) caps res"
  shows "derives (Cls P mn mx # r) (a @ b) cur caps res"
  using assms by auto

lemma derives_verse_pattern_bwd:
  assumes "length num \<le> 1" "list_all (\<lambda>c. 49 \<le> c \<and> c \<le> 51) num"
    and "list_all (is_space U) sp0"
    and "1 \<le> length word" "list_all (is_word U) word"
    and "1 \<le> length sp1" "list_all (is_space U) sp1"
    and "1 \<le> length chap" "list_all (is_digit U) chap"
    and "1 \<le> length vnum" "list_all (is_digit U) vnum"
    and "1 \<le> length sp2" "list_all (is_space U) sp2"
    and "list_all (\<lambda>c. c \<noteq> 10) body"
  shows "derives (verse_pattern U)
           (num @ sp0 @ word @ sp1 @ chap @ [58] @ vnum @ sp2 @ body @ rest) None []
           [num @ sp0 @ word, chap, vnum, body]"
  unfolding verse_pattern_def
  apply (simp only: derives.simps(2,3) option.map option.case append_Nil)
  apply (rule derives_Cls_I)
     apply simp
    apply (use assms(1) in simp)
   apply (rule assms)
  apply (simp only: derives.simps(2,3) option.map option.case append_Nil)
  apply (rule derives_Cls_I)
     apply simp
    apply simp
   apply (rule assms)
  apply (simp only: derives.simps(2,3) option.map option.case append_Nil)
  apply (rule derives_Cls_I, rule assms, simp, rule assms)
  apply (simp only: derives.simps(2,3) option.map option.case append_Nil)
  apply (rule derives_Cls_I, rule assms, simp, rule assms)
  apply (simp only: derives.simps(2,3) option.map option.case append_Nil)
  apply (rule derives_Cls_I, rule assms, simp, rule assms)
  apply (simp only: derives.simps(2,3) option.map option.case append_Nil)
  apply (rule derives_Cls_I, simp, simp, simp)
  apply (simp only: derives.simps(2,3) option.map option.case append_Nil)
  apply (rule derives_Cls_I, rule assms, simp, rule assms)
  apply (simp only: derives.simps(2,3) option.map option.case append_Nil)
  apply (rule derives_Cls_I, rule assms, simp, rule assms)
  apply (simp only: derives.simps(2,3) option.map option.case append_Nil)
  apply (rule derives_Cls_I, simp, simp, rule assms)
  apply (simp only: derives.simps(1,2,3) option.map option.case append_Nil)
  apply simp
  done


lemma load_bible_map_filter: "load_bible U lines = List.map_filter (parse_line U) lines"
proof -
  have "foldl (\<lambda>verses line. case parse_line U line of None \<Rightarrow> verses | Some v \<Rightarrow> verses @ [v])
          acc lines = acc @ List.map_filter (parse_line U) lines" for acc
  proof (induction lines arbitrary: acc)
    case Nil
    show ?case by (simp add: map_filter_simps)
  next
    case (Cons l ls)
    show ?case by (cases "parse_line U l") (simp_all add: Cons.IH map_filter_simps)
  qed
  from this[of "[]"] show ?thesis by (simp add: load_bible_def)
qed

lemma rmatch_split:
  "rmatch (i1 @ i2) s cur caps = Some res \<Longrightarrow>
     \<exists>a b cur' caps'. s = a @ b \<and> consumes i1 a cur caps cur' caps'
        \<and> rmatch i2 b cur' caps' = Some res"
proof (induction i1 arbitrary: s cur caps)
  case Nil
  then have "s = [] @ s \<and> consumes [] [] cur caps cur caps \<and> rmatch i2 s cur caps = Some res"
    by simp
  then show ?case by blast
next
  case (Cons it i1)
  show ?case
  proof (cases it)
    case (Cls P mn mx)
    define ks where "ks = rev [mn ..< Suc (greedy_len P mx s)]"
    from Cons.prems have "Some res \<in> set (map (\<lambda>k. rmatch (i1 @ i2) (drop k s)
        (map_option (\<lambda>g. g @ take k s) cur) caps) ks)"
      unfolding Cls append_Cons rmatch.simps ks_def by (rule first_some_Some)
    then obtain k where "k \<in> set ks"
      and m: "rmatch (i1 @ i2) (drop k s) (map_option (\<lambda>g. g @ take k s) cur) caps = Some res"
      unfolding set_map by (auto simp del: set_rev set_upt)
    then have k: "k \<in> set (rev [mn ..< Suc (greedy_len P mx s)])" by (simp only: ks_def)
    from k have r: "mn \<le> k" "k \<le> length s" "list_all P (take k s)"
      "case mx of None \<Rightarrow> True | Some b \<Rightarrow> k \<le> b"
      unfolding greedy_range by simp_all
    from r(2) have len: "length (take k s) = k" by simp
    have bd: "case mx of None \<Rightarrow> True | Some b \<Rightarrow> length (take k s) \<le> b"
      using r(4) unfolding len .
    from Cons.IH[OF m] obtain a b cur' caps' where ab: "drop k s = a @ b"
      and c: "consumes i1 a (map_option (\<lambda>g. g @ take k s) cur) caps cur' caps'"
      and t: "rmatch i2 b cur' caps' = Some res"
      by blast
    have s: "s = (take k s @ a) @ b" using ab by (metis append_assoc append_take_drop_id)
    have "consumes (Cls P mn mx # i1) (take k s @ a) cur caps cur' caps'"
      unfolding consumes.simps
    proof (intro exI conjI)
      show "take k s @ a = take k s @ a" by (rule refl)
      show "mn \<le> length (take k s)" using r(1) len by simp
      show "case mx of None \<Rightarrow> True | Some b \<Rightarrow> length (take k s) \<le> b" by (rule bd)
      show "list_all P (take k s)" by (rule r(3))
      show "consumes i1 a (map_option (\<lambda>g. g @ take k s) cur) caps cur' caps'" by (rule c)
    qed
    with s t show ?thesis unfolding Cls by blast
  next
    case Open
    from Cons.prems have "rmatch (i1 @ i2) s (Some []) caps = Some res" by (simp add: Open)
    from Cons.IH[OF this] show ?thesis unfolding Open consumes.simps .
  next
    case Close
    from Cons.prems
    have "rmatch (i1 @ i2) s None (caps @ [case cur of Some g \<Rightarrow> g | None \<Rightarrow> []]) = Some res"
      by (simp add: Close)
    from Cons.IH[OF this] show ?thesis unfolding Close consumes.simps .
  qed
qed

lemma rev_upt_Suc: "mn \<le> g \<Longrightarrow> rev [mn ..< Suc g] = g # rev [mn ..< g]"
  by simp

lemma rmatch_Cls_first:
  assumes "mn \<le> greedy_len P mx s"
    and "rmatch r (drop (greedy_len P mx s) s)
           (map_option (\<lambda>g. g @ take (greedy_len P mx s) s) cur) caps = Some res"
  shows "rmatch (Cls P mn mx # r) s cur caps = Some res"
  unfolding rmatch.simps rev_upt_Suc[OF assms(1)] list.map assms(2) first_some.simps ..

lemma rmatch_tail:
  "rmatch [Cls P mn None, Open, Cls Q 0 None, Close] s cur caps =
     (if mn \<le> length (takeWhile P s)
      then Some (caps @ [takeWhile Q (dropWhile P s)]) else None)"
proof (cases "mn \<le> length (takeWhile P s)")
  case False
  then show ?thesis by (simp add: greedy_len_def)
next
  case True
  have gP: "greedy_len P None s = length (takeWhile P s)" by (simp add: greedy_len_def)
  have dg: "drop (greedy_len P None s) s = dropWhile P s"
    unfolding gP by (rule dropWhile_eq_drop[symmetric])
  have gQ: "greedy_len Q None (dropWhile P s) = length (takeWhile Q (dropWhile P s))"
    by (simp add: greedy_len_def)
  have th: "take (greedy_len Q None (dropWhile P s)) (dropWhile P s) = takeWhile Q (dropWhile P s)"
    unfolding gQ by (rule takeWhile_eq_take[symmetric])
  have inner: "rmatch [Cls Q 0 None, Close] (dropWhile P s) (Some []) caps
                 = Some (caps @ [takeWhile Q (dropWhile P s)])"
    by (rule rmatch_Cls_first) (simp_all add: th)
  have "rmatch [Cls P mn None, Open, Cls Q 0 None, Close] s cur caps
          = Some (caps @ [takeWhile Q (dropWhile P s)])"
  proof (rule rmatch_Cls_first)
    show "mn \<le> greedy_len P None s" using True by (simp add: gP)
    show "rmatch [Open, Cls Q 0 None, Close] (drop (greedy_len P None s) s)
            (map_option (\<lambda>g. g @ take (greedy_len P None s) s) cur) caps
          = Some (caps @ [takeWhile Q (dropWhile P s)])"
      unfolding dg rmatch.simps(2) by (rule inner)
  qed
  with True show ?thesis by simp
qed

lemma verse_pattern_split:
  "verse_pattern U =
     [Open, Cls (\<lambda>c. 49 \<le> c \<and> c \<le> 51) 0 (Some 1), Cls (is_space U) 0 None,
            Cls (is_word U) 1 None, Close,
      Cls (is_space U) 1 None,
      Open, Cls (is_digit U) 1 None, Close,
      Cls (\<lambda>c. c = 58) 1 (Some 1),
      Open, Cls (is_digit U) 1 None, Close]
     @ [Cls (is_space U) 1 None, Open, Cls (\<lambda>c. c \<noteq> 10) 0 None, Close]"
  by (simp add: verse_pattern_def)

lemma consumes_verse_head:
  assumes "consumes
     [Open, Cls (\<lambda>c. 49 \<le> c \<and> c \<le> 51) 0 (Some 1), Cls (is_space U) 0 None,
            Cls (is_word U) 1 None, Close,
      Cls (is_space U) 1 None,
      Open, Cls (is_digit U) 1 None, Close,
      Cls (\<lambda>c. c = 58) 1 (Some 1),
      Open, Cls (is_digit U) 1 None, Close] a None [] cur' caps'"
  shows "\<exists>num sp0 word sp1 chap vnum.
        a = num @ sp0 @ word @ sp1 @ chap @ [58] @ vnum
        \<and> cur' = None \<and> caps' = [num @ sp0 @ word, chap, vnum]
        \<and> length num \<le> 1 \<and> list_all (\<lambda>c. 49 \<le> c \<and> c \<le> 51) num
        \<and> list_all (is_space U) sp0
        \<and> 1 \<le> length word \<and> list_all (is_word U) word
        \<and> 1 \<le> length sp1 \<and> list_all (is_space U) sp1
        \<and> 1 \<le> length chap \<and> list_all (is_digit U) chap
        \<and> 1 \<le> length vnum \<and> list_all (is_digit U) vnum"
  using assms
  unfolding consumes.simps option.map option.case append_Nil
  apply (elim exE conjE)
  subgoal premises p for num b1 sp0 b2 word b3 sp1 b4 chap b5 col b6 vnum b7
  proof -
    from p(22,23,24) have col: "col = [58]" by (cases col) auto
    have a: "a = num @ sp0 @ word @ sp1 @ chap @ [58] @ vnum"
      by (simp only: p(1,5,9,13,17,21,25,29) col append_Nil2)
    have caps: "caps' = [num @ sp0 @ word, chap, vnum]"
      using p(31) by simp
    show ?thesis
      apply (rule exI[of _ num], rule exI[of _ sp0], rule exI[of _ word], rule exI[of _ sp1],
          rule exI[of _ chap], rule exI[of _ vnum])
      apply (intro conjI)
      apply (rule a caps p)+
      done
  qed
  done

lemma re_match_verse_shape:
  assumes "re_match (verse_pattern U) line = Some m"
  shows "\<exists>num sp0 word sp1 chap vnum tail.
        line = num @ sp0 @ word @ sp1 @ chap @ [58] @ vnum @ tail
        \<and> m = [num @ sp0 @ word, chap, vnum,
                takeWhile (\<lambda>c. c \<noteq> 10) (dropWhile (is_space U) tail)]
        \<and> length num \<le> 1 \<and> list_all (\<lambda>c. 49 \<le> c \<and> c \<le> 51) num
        \<and> list_all (is_space U) sp0
        \<and> 1 \<le> length word \<and> list_all (is_word U) word
        \<and> 1 \<le> length sp1 \<and> list_all (is_space U) sp1
        \<and> 1 \<le> length chap \<and> list_all (is_digit U) chap
        \<and> 1 \<le> length vnum \<and> list_all (is_digit U) vnum
        \<and> 1 \<le> length (takeWhile (is_space U) tail)"
proof -
  from assms have "rmatch
     ([Open, Cls (\<lambda>c. 49 \<le> c \<and> c \<le> 51) 0 (Some 1), Cls (is_space U) 0 None,
            Cls (is_word U) 1 None, Close,
      Cls (is_space U) 1 None,
      Open, Cls (is_digit U) 1 None, Close,
      Cls (\<lambda>c. c = 58) 1 (Some 1),
      Open, Cls (is_digit U) 1 None, Close]
     @ [Cls (is_space U) 1 None, Open, Cls (\<lambda>c. c \<noteq> 10) 0 None, Close]) line None [] = Some m"
    unfolding re_match_def verse_pattern_split .
  from rmatch_split[OF this]
  obtain a b cur' caps' where line: "line = a @ b"
    and c: "consumes
     [Open, Cls (\<lambda>c. 49 \<le> c \<and> c \<le> 51) 0 (Some 1), Cls (is_space U) 0 None,
            Cls (is_word U) 1 None, Close,
      Cls (is_space U) 1 None,
      Open, Cls (is_digit U) 1 None, Close,
      Cls (\<lambda>c. c = 58) 1 (Some 1),
      Open, Cls (is_digit U) 1 None, Close] a None [] cur' caps'"
    and t: "rmatch [Cls (is_space U) 1 None, Open, Cls (\<lambda>c. c \<noteq> 10) 0 None, Close] b cur' caps'
              = Some m"
    by blast
  from consumes_verse_head[OF c]
  obtain num sp0 word sp1 chap vnum
    where a: "a = num @ sp0 @ word @ sp1 @ chap @ [58] @ vnum"
      and caps: "caps' = [num @ sp0 @ word, chap, vnum]"
      and sh: "length num \<le> 1" "list_all (\<lambda>c. 49 \<le> c \<and> c \<le> 51) num"
        "list_all (is_space U) sp0" "1 \<le> length word" "list_all (is_word U) word"
        "1 \<le> length sp1" "list_all (is_space U) sp1" "1 \<le> length chap"
        "list_all (is_digit U) chap" "1 \<le> length vnum" "list_all (is_digit U) vnum"
    by blast
  from t have sp: "1 \<le> length (takeWhile (is_space U) b)"
    and m: "m = caps' @ [takeWhile (\<lambda>c. c \<noteq> 10) (dropWhile (is_space U) b)]"
    unfolding rmatch_tail by (simp_all split: if_splits)
  have l: "line = num @ sp0 @ word @ sp1 @ chap @ [58] @ vnum @ b"
    by (simp add: line a)
  have m': "m = [num @ sp0 @ word, chap, vnum,
                 takeWhile (\<lambda>c. c \<noteq> 10) (dropWhile (is_space U) b)]"
    by (simp add: m caps)
  show ?thesis
    apply (rule exI[of _ num], rule exI[of _ sp0], rule exI[of _ word], rule exI[of _ sp1],
        rule exI[of _ chap], rule exI[of _ vnum], rule exI[of _ b])
    apply (intro conjI)
    apply (rule l m' sh sp)+
    done
qed


lemma list_all_takeWhile: "list_all P (takeWhile P xs)"
  by (induction xs) simp_all

lemma parse_line_sound:
  assumes "parse_line U line = Some v"
  shows "verse_parts U line v"
proof -
  from assms obtain m where m: "re_match (verse_pattern U) line = Some m"
    and v: "v = \<lparr> book = group m 1, chapter = group m 2, verse = group m 3, text = group m 4 \<rparr>"
    by (auto simp: parse_line_def split: option.splits)
  from re_match_verse_shape[OF m]
  obtain num sp0 word sp1 chap vnum tail
    where line: "line = num @ sp0 @ word @ sp1 @ chap @ [58] @ vnum @ tail"
      and res: "m = [num @ sp0 @ word, chap, vnum,
                     takeWhile (\<lambda>c. c \<noteq> 10) (dropWhile (is_space U) tail)]"
      and sh: "length num \<le> 1" "list_all (\<lambda>c. 49 \<le> c \<and> c \<le> 51) num"
        "list_all (is_space U) sp0" "1 \<le> length word" "list_all (is_word U) word"
        "1 \<le> length sp1" "list_all (is_space U) sp1" "1 \<le> length chap"
        "list_all (is_digit U) chap" "1 \<le> length vnum" "list_all (is_digit U) vnum"
        "1 \<le> length (takeWhile (is_space U) tail)"
    by blast
  have f: "book v = num @ sp0 @ word" "chapter v = chap" "verse v = vnum"
    "text v = takeWhile (\<lambda>c. c \<noteq> 10) (dropWhile (is_space U) tail)"
    by (simp_all add: v res group_def)
  from sh have ne: "word \<noteq> []" "sp1 \<noteq> []" "chap \<noteq> []" "vnum \<noteq> []"
    "takeWhile (is_space U) tail \<noteq> []"
    by auto
  have bt: "book_token U (num @ sp0 @ word)"
    unfolding book_token_def using sh(1,2,3,5) ne(1) by blast
  show ?thesis
    unfolding verse_parts_def f
    apply (rule exI[of _ sp1], rule exI[of _ tail])
    using line sh ne bt by simp
qed

lemma parse_line_complete:
  assumes "verse_parts U line v"
  shows "parse_line U line \<noteq> None"
proof -
  from assms obtain sp1 tail
    where line: "line = book v @ sp1 @ chapter v @ [58] @ verse v @ tail"
      and bt: "book_token U (book v)"
      and sh: "sp1 \<noteq> []" "list_all (is_space U) sp1" "chapter v \<noteq> []"
        "list_all (is_digit U) (chapter v)" "verse v \<noteq> []" "list_all (is_digit U) (verse v)"
        "takeWhile (is_space U) tail \<noteq> []"
      and tx: "text v = takeWhile (\<lambda>c. c \<noteq> 10) (dropWhile (is_space U) tail)"
    unfolding verse_parts_def by blast
  from bt obtain num sp0 word where bk: "book v = num @ sp0 @ word"
      and bs: "length num \<le> 1" "list_all (\<lambda>c. 49 \<le> c \<and> c \<le> 51) num"
        "list_all (is_space U) sp0" "word \<noteq> []" "list_all (is_word U) word"
    unfolding book_token_def by blast
  define sp2 where "sp2 = takeWhile (is_space U) tail"
  define rest where "rest = dropWhile (\<lambda>c. c \<noteq> 10) (dropWhile (is_space U) tail)"
  have tail: "tail = sp2 @ text v @ rest"
    unfolding sp2_def rest_def tx by simp
  have len: "1 \<le> length word" "1 \<le> length sp1" "1 \<le> length (chapter v)"
    "1 \<le> length (verse v)" "1 \<le> length sp2"
    using sh bs unfolding sp2_def by (simp_all add: Suc_le_eq)
  have s2: "list_all (is_space U) sp2" unfolding sp2_def by (rule list_all_takeWhile)
  have nl: "list_all (\<lambda>c. c \<noteq> 10) (text v)" unfolding tx by (rule list_all_takeWhile)
  have l2: "line = num @ sp0 @ word @ sp1 @ chapter v @ [58] @ verse v @ sp2 @ text v @ rest"
    using tail by (simp add: line bk)
  have "derives (verse_pattern U) line None [] [num @ sp0 @ word, chapter v, verse v, text v]"
    unfolding l2
    by (rule derives_verse_pattern_bwd[OF bs(1,2,3) len(1) bs(5) len(2) sh(2) len(3) sh(4)
          len(4) sh(6) len(5) s2 nl])
  from rmatch_complete[OF this] show ?thesis
    by (auto simp: parse_line_def re_match_def split: option.splits)
qed

lemma spec_book_token_hd:
  assumes "spec_book_token U b"
  shows "b \<noteq> [] \<and> (is_word U (hd b) \<or> (49 \<le> hd b \<and> hd b \<le> 51))"
  using assms unfolding spec_book_token_def by (cases b) auto

lemma verse_grammar_book:
  assumes "verse_grammar U line"
  shows "\<exists>b r. line = b @ r \<and> spec_book_token U b"
proof -
  from assms obtain v where vp: "verse_parts U line v" and sb: "spec_book_token U (book v)"
    unfolding verse_grammar_def by blast
  from vp obtain sp1 tail
    where "line = book v @ (sp1 @ chapter v @ [58] @ verse v @ tail)"
    unfolding verse_parts_def by blast
  with sb show ?thesis by blast
qed

text \<open>
  C5 (amended). \<open>load_bible\<close> yields the verses of the lines that match, in the order of
  the lines and with repetitions kept: one verse for each verse line and nothing for
  any other line. A line matches exactly when it is a verse line, which every line of
  the verse grammar is; the fields of its verse are the parts of the line, the text
  being the remainder of the line after the whitespace that follows the verse number.
  The result is a plain list: the function has no error or warning to give.
\<close>

theorem load_bible_lenient:
  "load_bible U lines = List.map_filter (parse_line U) lines
   \<and> length (load_bible U lines) = length (filter (verse_line U) lines)
   \<and> (\<forall>line. (parse_line U line \<noteq> None) = verse_line U line)
   \<and> (\<forall>line v. parse_line U line = Some v \<longrightarrow> verse_parts U line v)
   \<and> (\<forall>line. verse_grammar U line \<longrightarrow> parse_line U line \<noteq> None)"
proof -
  have iff: "(parse_line U line \<noteq> None) = verse_line U line" for line
    unfolding verse_line_def using parse_line_sound parse_line_complete by blast
  have "length (List.map_filter (parse_line U) lines)
          = length (filter (\<lambda>l. parse_line U l \<noteq> None) lines)"
    by (simp add: List.map_filter_def)
  also have "(\<lambda>l. parse_line U l \<noteq> None) = verse_line U" by (rule ext) (rule iff)
  finally have len: "length (load_bible U lines) = length (filter (verse_line U) lines)"
    by (simp add: load_bible_map_filter)
  have sub: "verse_grammar U line \<longrightarrow> parse_line U line \<noteq> None" for line
    unfolding verse_grammar_def using parse_line_complete by blast
  from len iff parse_line_sound sub show ?thesis
    by (simp add: load_bible_map_filter)
qed

theorem load_bible_lenient_witness:
  "parse_line latin_tables (cps ''Genesis 1:1 In the beginning'' @ [10])
     = Some \<lparr>book = cps ''Genesis'', chapter = cps ''1'', verse = cps ''1'',
              text = cps ''In the beginning''\<rparr>
   \<and> verse_parts latin_tables (cps ''Genesis 1:1 In the beginning'' @ [10])
         \<lparr>book = cps ''Genesis'', chapter = cps ''1'', verse = cps ''1'',
          text = cps ''In the beginning''\<rparr>
   \<and> load_bible latin_tables
         [cps ''Genesis 1:1 In the beginning'' @ [10], cps ''Preface'' @ [10],
          cps ''Song of Solomon 1:1 The song'' @ [10],
          cps ''Genesis 1:1 In the beginning'' @ [10]]
       = [\<lparr>book = cps ''Genesis'', chapter = cps ''1'', verse = cps ''1'',
           text = cps ''In the beginning''\<rparr>,
          \<lparr>book = cps ''Genesis'', chapter = cps ''1'', verse = cps ''1'',
           text = cps ''In the beginning''\<rparr>]"
proof -
  have p: "parse_line latin_tables (cps ''Genesis 1:1 In the beginning'' @ [10])
     = Some \<lparr>book = cps ''Genesis'', chapter = cps ''1'', verse = cps ''1'',
              text = cps ''In the beginning''\<rparr>"
    by code_simp
  have l: "load_bible latin_tables
         [cps ''Genesis 1:1 In the beginning'' @ [10], cps ''Preface'' @ [10],
          cps ''Song of Solomon 1:1 The song'' @ [10],
          cps ''Genesis 1:1 In the beginning'' @ [10]]
       = [\<lparr>book = cps ''Genesis'', chapter = cps ''1'', verse = cps ''1'',
           text = cps ''In the beginning''\<rparr>,
          \<lparr>book = cps ''Genesis'', chapter = cps ''1'', verse = cps ''1'',
           text = cps ''In the beginning''\<rparr>]"
    by code_simp
  from load_bible_lenient[of latin_tables "[]"] p
  have "verse_parts latin_tables (cps ''Genesis 1:1 In the beginning'' @ [10])
         \<lparr>book = cps ''Genesis'', chapter = cps ''1'', verse = cps ''1'',
          text = cps ''In the beginning''\<rparr>"
    by blast
  with p l show ?thesis by blast
qed

text \<open>
  C5 as stated fails: the line \<open> Ezra 1:1 a\<close>, which starts with a blank, is not in the
  verse grammar (no numeral stands before the blank), and yet it is not skipped: it
  yields a verse, whose book is \<open> Ezra\<close> with the blank.
\<close>

theorem leading_blank_counterexample:
  "parse_line latin_tables (cps '' Ezra 1:1 a'' @ [10])
     = Some \<lparr>book = cps '' Ezra'', chapter = cps ''1'', verse = cps ''1'', text = cps ''a''\<rparr>
   \<and> \<not> verse_grammar latin_tables (cps '' Ezra 1:1 a'' @ [10])"
proof
  show "parse_line latin_tables (cps '' Ezra 1:1 a'' @ [10])
     = Some \<lparr>book = cps '' Ezra'', chapter = cps ''1'', verse = cps ''1'', text = cps ''a''\<rparr>"
    by code_simp
  show "\<not> verse_grammar latin_tables (cps '' Ezra 1:1 a'' @ [10])"
  proof
    assume "verse_grammar latin_tables (cps '' Ezra 1:1 a'' @ [10])"
    from verse_grammar_book[OF this] obtain b r
      where line: "cps '' Ezra 1:1 a'' @ [10] = b @ r"
        and sb: "spec_book_token latin_tables b"
      by blast
    from spec_book_token_hd[OF sb] have ne: "b \<noteq> []"
      and hd: "is_word latin_tables (hd b) \<or> (49 \<le> hd b \<and> hd b \<le> 51)"
      by simp_all
    from line ne have "hd b = hd (cps '' Ezra 1:1 a'' @ [10])" by (metis hd_append2)
    then have "hd b = 32" by (simp add: cps_def)
    with hd show False by (simp add: latin_tables_def)
  qed
qed

text \<open>
  C6 (amended). The chapter and the verse number of every verse \<open>load_bible\<close> yields
  are non-empty strings of decimal digits: unsigned integers, of which nothing says
  they are positive.
\<close>

theorem verse_numbers_are_digits:
  assumes "v \<in> set (load_bible U lines)"
  shows "chapter v \<noteq> [] \<and> list_all (is_digit U) (chapter v)
       \<and> verse v \<noteq> [] \<and> list_all (is_digit U) (verse v)"
proof -
  from assms obtain line where "parse_line U line = Some v"
    by (auto simp: load_bible_map_filter List.map_filter_def)
  from parse_line_sound[OF this] show ?thesis
    unfolding verse_parts_def by blast
qed

theorem verse_numbers_are_digits_witness:
  "\<lparr>book = cps ''Genesis'', chapter = cps ''12'', verse = cps ''3'', text = cps ''And I''\<rparr>
     \<in> set (load_bible latin_tables [cps ''Genesis 12:3 And I'' @ [10]])
   \<and> list_all (is_digit latin_tables) (cps ''12'')
   \<and> list_all (is_digit latin_tables) (cps ''3'')"
proof -
  have h: "\<lparr>book = cps ''Genesis'', chapter = cps ''12'', verse = cps ''3'', text = cps ''And I''\<rparr>
     \<in> set (load_bible latin_tables [cps ''Genesis 12:3 And I'' @ [10]])"
    by code_simp
  from verse_numbers_are_digits[OF h] h show ?thesis by simp
qed

text \<open>
  C6 as stated fails: the line \<open>Genesis 0:0 In the beginning\<close> matches the pattern, and
  the chapter and the verse number of its verse are both zero.
\<close>

theorem verse_zero_counterexample:
  "load_bible latin_tables [cps ''Genesis 0:0 In the beginning'' @ [10]]
     = [\<lparr>book = cps ''Genesis'', chapter = cps ''0'', verse = cps ''0'',
         text = cps ''In the beginning''\<rparr>]
   \<and> decimal_value (chapter \<lparr>book = cps ''Genesis'', chapter = cps ''0'', verse = cps ''0'',
         text = cps ''In the beginning''\<rparr>) = 0
   \<and> decimal_value (verse \<lparr>book = cps ''Genesis'', chapter = cps ''0'', verse = cps ''0'',
         text = cps ''In the beginning''\<rparr>) = 0"
proof -
  have "load_bible latin_tables [cps ''Genesis 0:0 In the beginning'' @ [10]]
     = [\<lparr>book = cps ''Genesis'', chapter = cps ''0'', verse = cps ''0'',
         text = cps ''In the beginning''\<rparr>]"
    by code_simp
  then show ?thesis by (simp add: decimal_value_def cps_def)
qed

section \<open>Properties of the report assembler\<close>

declare scan_matches.simps [code]

lemma sum_lengths_Some:
  "sum_lengths f vs acc = Some n \<Longrightarrow>
     (\<forall>v\<in>set vs. f v \<noteq> None) \<and> n = acc + sum_list (map (\<lambda>v. length (the (f v))) vs)"
proof (induction vs arbitrary: acc)
  case Nil
  then show ?case by simp
next
  case (Cons v vs)
  from Cons.prems obtain ms where ms: "f v = Some ms"
    and r: "sum_lengths f vs (acc + length ms) = Some n"
    by (auto split: option.splits)
  from Cons.IH[OF r] ms show ?case by simp
qed

lemma sum_lengths_total:
  "\<forall>v\<in>set vs. f v \<noteq> None \<Longrightarrow> sum_lengths f vs acc \<noteq> None"
  by (induction vs arbitrary: acc) auto

lemma match_section_Some:
  "match_section f css vs html = Some html' \<Longrightarrow>
     html' = html @ concat (map (\<lambda>v. match_block css v (the (f v))) vs)"
proof (induction vs arbitrary: html)
  case Nil
  then show ?case by simp
next
  case (Cons v vs)
  from Cons.prems obtain ms where ms: "f v = Some ms" by (auto split: option.splits)
  show ?case
  proof (cases "ms = []")
    case True
    with Cons.prems ms have "match_section f css vs html = Some html'" by simp
    from Cons.IH[OF this] ms True show ?thesis by (simp add: match_block_def)
  next
    case False
    with Cons.prems ms have "match_section f css vs
        (html @ [cps ''<h3>'' @ location v @ cps ''</h3>'',
                 cps ''<p>'' @ highlight_text (text v) ms css @ cps ''</p>'']) = Some html'"
      by (simp add: Let_def)
    from Cons.IH[OF this] ms False show ?thesis by (simp add: match_block_def)
  qed
qed

lemma match_section_total:
  "\<forall>v\<in>set vs. f v \<noteq> None \<Longrightarrow> match_section f css vs html \<noteq> None"
  by (induction vs arbitrary: html) (auto simp: Let_def)

lemma els_results_eq:
  "els_results loc_base ms html = html @ concat (map (els_block loc_base) ms)"
  by (induction ms arbitrary: html) (simp_all add: Let_def els_block_def)

lemma els_section_eq:
  "els_section U term vs html =
     html @ concat (map (\<lambda>v. concat (map (els_block (location v)) (find_els U (text v) term 50))) vs)"
  by (induction vs arbitrary: html) (simp_all add: Let_def els_results_eq)

lemma find_direct_total: "upper U term \<noteq> [] \<Longrightarrow> find_direct U t term \<noteq> None"
  using scan_matches_greedy[of "upper U term" "upper U t" 0 "[]"]
  by (auto simp: find_direct_def)

lemma find_reversed_total: "upper U term \<noteq> [] \<Longrightarrow> find_reversed U t term \<noteq> None"
  using scan_matches_greedy[of "rev (upper U term)" "upper U t" 0 "[]"]
  by (auto simp: find_reversed_def)

lemma generate_html_lines_total:
  assumes "upper U term \<noteq> []"
  shows "generate_html_lines U verses term \<noteq> None"
proof -
  have d: "\<forall>v\<in>set verses. find_direct U (text v) term \<noteq> None"
    using find_direct_total[OF assms] by blast
  have r: "\<forall>v\<in>set verses. find_reversed U (text v) term \<noteq> None"
    using find_reversed_total[OF assms] by blast
  have e: "\<forall>v\<in>set verses. Some (find_els U (text v) term 50) \<noteq> None" by simp
  obtain dc where dc: "sum_lengths (\<lambda>v. find_direct U (text v) term) verses 0 = Some dc"
    using sum_lengths_total[OF d, of 0] by blast
  obtain rc where rc: "sum_lengths (\<lambda>v. find_reversed U (text v) term) verses 0 = Some rc"
    using sum_lengths_total[OF r, of 0] by blast
  obtain ec where ec: "sum_lengths (\<lambda>v. Some (find_els U (text v) term 50)) verses 0 = Some ec"
    using sum_lengths_total[OF e, of 0] by blast
  obtain html1 where h1: "match_section (\<lambda>v. find_direct U (text v) term)
        (cps ''highlight-direct'') verses
        (html_head term dc rc ec @ [cps ''<h2 id=\"conventional\">Conventional Matches</h2>''])
      = Some html1"
    using match_section_total[OF d] by blast
  obtain html2 where h2: "match_section (\<lambda>v. find_reversed U (text v) term)
        (cps ''highlight-reverse'') verses
        (html1 @ [cps ''<h2 id=\"reversed\">Reversed Matches</h2>'']) = Some html2"
    using match_section_total[OF r] by blast
  show ?thesis
    unfolding generate_html_lines_def by (simp add: dc rc ec h1 h2)
qed

lemma generate_html_lines_shape:
  assumes "generate_html_lines U verses term = Some html"
  shows "(\<forall>v\<in>set verses. find_direct U (text v) term \<noteq> None)
       \<and> (\<forall>v\<in>set verses. find_reversed U (text v) term \<noteq> None)
       \<and> html = html_head term
                  (sum_list (map (\<lambda>v. length (the (find_direct U (text v) term))) verses))
                  (sum_list (map (\<lambda>v. length (the (find_reversed U (text v) term))) verses))
                  (sum_list (map (\<lambda>v. length (find_els U (text v) term 50)) verses))
                @ [cps ''<h2 id=\"conventional\">Conventional Matches</h2>'']
                @ concat (map (\<lambda>v. match_block (cps ''highlight-direct'') v
                                     (the (find_direct U (text v) term))) verses)
                @ [cps ''<h2 id=\"reversed\">Reversed Matches</h2>'']
                @ concat (map (\<lambda>v. match_block (cps ''highlight-reverse'') v
                                     (the (find_reversed U (text v) term))) verses)
                @ [cps ''<h2 id=\"els\">Equidistant Letter Sequences (ELS)</h2>'']
                @ concat (map (\<lambda>v. concat (map (els_block (location v))
                                     (find_els U (text v) term 50))) verses)
                @ [cps ''</body>'', cps ''</html>'']"
proof -
  from assms obtain dc rc ec html1 html2
    where dc: "sum_lengths (\<lambda>v. find_direct U (text v) term) verses 0 = Some dc"
      and rc: "sum_lengths (\<lambda>v. find_reversed U (text v) term) verses 0 = Some rc"
      and ec: "sum_lengths (\<lambda>v. Some (find_els U (text v) term 50)) verses 0 = Some ec"
      and h1: "match_section (\<lambda>v. find_direct U (text v) term) (cps ''highlight-direct'') verses
                 (html_head term dc rc ec
                    @ [cps ''<h2 id=\"conventional\">Conventional Matches</h2>'']) = Some html1"
      and h2: "match_section (\<lambda>v. find_reversed U (text v) term) (cps ''highlight-reverse'') verses
                 (html1 @ [cps ''<h2 id=\"reversed\">Reversed Matches</h2>'']) = Some html2"
      and h: "html = els_section U term verses
                  (html2 @ [cps ''<h2 id=\"els\">Equidistant Letter Sequences (ELS)</h2>''])
                @ [cps ''</body>'', cps ''</html>'']"
    unfolding generate_html_lines_def by (auto split: option.splits)
  note a = sum_lengths_Some[OF dc] sum_lengths_Some[OF rc] sum_lengths_Some[OF ec]
  note b = match_section_Some[OF h1] match_section_Some[OF h2]
  from a b h show ?thesis by (simp add: els_section_eq)
qed

lemma span_open_Cons: "span_open css = 60 # (cps ''span class=\"'' @ css @ cps ''\">'')"
  by (simp add: span_open_def cps_def)

lemma count_plain: "60 \<notin> set a \<Longrightarrow> count_sub (span_open css) (a @ X) = count_sub (span_open css) X"
  by (induction a) (auto simp: span_open_Cons)

lemma count_open:
  assumes "60 \<notin> set css"
  shows "count_sub (span_open css) (span_open css @ X) = 1 + count_sub (span_open css) X"
proof -
  have t: "60 \<notin> set (cps ''span class=\"'' @ css @ cps ''\">'')"
    using assms by (simp add: cps_def)
  have "count_sub (span_open css) (span_open css @ X)
      = count_sub (span_open css) (60 # ((cps ''span class=\"'' @ css @ cps ''\">'') @ X))"
    by (simp add: span_open_Cons)
  also have "\<dots> = (if prefix (span_open css) (span_open css @ X) then 1 else 0)
      + count_sub (span_open css) ((cps ''span class=\"'' @ css @ cps ''\">'') @ X)"
    by (simp add: span_open_Cons)
  also have "\<dots> = 1 + count_sub (span_open css) X"
    by (simp only: count_plain[OF t]) simp
  finally show ?thesis .
qed

lemma count_close: "count_sub (span_open css) (span_close @ X) = count_sub (span_open css) X"
proof -
  have e: "span_close @ X = 60 # (cps ''/span>'' @ X)" by (simp add: span_close_def cps_def)
  have np: "\<not> prefix (span_open css) (60 # (cps ''/span>'' @ X))"
    by (simp add: span_open_Cons cps_def)
  have nl: "60 \<notin> set (cps ''/span>'')" by (simp add: cps_def)
  have "count_sub (span_open css) (span_close @ X)
          = count_sub (span_open css) (60 # (cps ''/span>'' @ X))"
    by (simp only: e)
  also have "\<dots> = count_sub (span_open css) (cps ''/span>'' @ X)"
    using np by simp
  also have "\<dots> = count_sub (span_open css) X" by (rule count_plain[OF nl])
  finally show ?thesis .
qed

lemma count_p_open: "count_sub (span_open css) (cps ''<p>'' @ X) = count_sub (span_open css) X"
proof -
  have e: "cps ''<p>'' @ X = 60 # (cps ''p>'' @ X)" by (simp add: cps_def)
  have np: "\<not> prefix (span_open css) (60 # (cps ''p>'' @ X))"
    by (simp add: span_open_Cons cps_def)
  have nl: "60 \<notin> set (cps ''p>'')" by (simp add: cps_def)
  have "count_sub (span_open css) (cps ''<p>'' @ X)
          = count_sub (span_open css) (60 # (cps ''p>'' @ X))"
    by (simp only: e)
  also have "\<dots> = count_sub (span_open css) (cps ''p>'' @ X)"
    using np by simp
  also have "\<dots> = count_sub (span_open css) X" by (rule count_plain[OF nl])
  finally show ?thesis .
qed

lemma count_p_close: "count_sub (span_open css) (cps ''</p>'') = 0"
  by (simp add: span_open_Cons cps_def)

lemma highlight_parts_count:
  assumes "60 \<notin> set css"
    and "\<And>X. count_sub (span_open css) (concat parts @ X) = n + count_sub (span_open css) X"
    and "highlight_parts t css ms lo parts = (parts', last')"
  shows "count_sub (span_open css) (concat parts' @ X) = n + length ms + count_sub (span_open css) X"
  using assms(2,3)
proof (induction ms arbitrary: lo parts n X)
  case Nil
  then show ?case by simp
next
  case (Cons m ms)
  obtain s l where m: "m = (s, l)" by (cases m)
  define parts2 where "parts2 = (parts @ [escape_html (slice t lo s)])
       @ [span_open css @ escape_html (slice t s (s + l)) @ span_close]"
  from Cons.prems(2) have run: "highlight_parts t css ms (s + l) parts2 = (parts', last')"
    by (simp add: m parts2_def Let_def)
  have inv: "count_sub (span_open css) (concat parts2 @ Y)
               = (n + 1) + count_sub (span_open css) Y" for Y
  proof -
    have "count_sub (span_open css) (concat parts2 @ Y)
        = count_sub (span_open css) (concat parts @ (escape_html (slice t lo s)
            @ span_open css @ escape_html (slice t s (s + l)) @ span_close @ Y))"
      by (simp add: parts2_def)
    also have "\<dots> = n + count_sub (span_open css) (escape_html (slice t lo s)
            @ span_open css @ escape_html (slice t s (s + l)) @ span_close @ Y)"
      by (rule Cons.prems(1))
    also have "\<dots> = n + (1 + count_sub (span_open css) Y)"
      by (simp only: count_plain[OF lt_notin_escape_html] count_open[OF assms(1)] count_close)
    finally show ?thesis by simp
  qed
  from Cons.IH[OF inv run] show ?case by simp
qed

lemma highlight_text_count:
  assumes "60 \<notin> set css"
  shows "count_sub (span_open css) (highlight_text t ms css @ X)
           = length ms + count_sub (span_open css) X"
proof (cases "ms = []")
  case True
  then show ?thesis
    by (simp add: highlight_text_def count_plain[OF lt_notin_escape_html])
next
  case False
  obtain parts lastp
    where run: "highlight_parts t css (sort_key fst ms) 0 [] = (parts, lastp)"
    by (cases "highlight_parts t css (sort_key fst ms) 0 []")
  have "count_sub (span_open css) (concat parts @ Y)
          = 0 + length (sort_key fst ms) + count_sub (span_open css) Y" for Y
    by (rule highlight_parts_count[OF assms _ run]) simp
  from this[of "escape_html (slice_from t lastp) @ X"] False run show ?thesis
    by (simp add: highlight_text_def count_plain[OF lt_notin_escape_html])
qed

lemma paragraph_count:
  assumes "60 \<notin> set css"
  shows "count_sub (span_open css) (cps ''<p>'' @ highlight_text t ms css @ cps ''</p>'')
           = length ms"
  by (simp only: count_p_open highlight_text_count[OF assms] count_p_close)

lemma p_prefix: "prefix (cps ''<p>'') (cps ''<p>'' @ X)" "\<not> prefix (cps ''<p>'') (cps ''<h3>'' @ X)"
  by (simp_all add: cps_def)

lemma rendered_spans_append:
  "rendered_spans css (a @ b) = rendered_spans css a + rendered_spans css b"
  by (simp add: rendered_spans_def)

lemma rendered_spans_block:
  "60 \<notin> set css \<Longrightarrow> rendered_spans css (match_block css v ms) = length ms"
  by (simp add: rendered_spans_def match_block_def p_prefix paragraph_count)

lemma rendered_spans_section:
  "60 \<notin> set css \<Longrightarrow>
     rendered_spans css (concat (map (\<lambda>v. match_block css v (g v)) vs))
       = sum_list (map (\<lambda>v. length (g v)) vs)"
proof (induction vs)
  case Nil
  show ?case by (simp add: rendered_spans_def)
next
  case (Cons v vs)
  then show ?case by (simp add: rendered_spans_append rendered_spans_block)
qed

lemma rendered_results_append:
  "rendered_results css (a @ b) = rendered_results css a + rendered_results css b"
  by (simp add: rendered_results_def)

lemma rendered_results_block:
  "positions m \<noteq> [] \<Longrightarrow> rendered_results (cps ''highlight-els'') (els_block loc m) = 1"
proof -
  assume "positions m \<noteq> []"
  moreover have "60 \<notin> set (cps ''highlight-els'')" by (simp add: cps_def)
  ultimately show ?thesis
    by (simp add: rendered_results_def els_block_def p_prefix paragraph_count)
qed

lemma rendered_results_blocks:
  "\<forall>m\<in>set ms. positions m \<noteq> [] \<Longrightarrow>
     rendered_results (cps ''highlight-els'') (concat (map (els_block loc) ms)) = length ms"
proof (induction ms)
  case Nil
  show ?case by (simp add: rendered_results_def)
next
  case (Cons m ms)
  then show ?case by (simp add: rendered_results_append rendered_results_block)
qed

lemma find_els_positions_length:
  "m \<in> set (find_els U t term k) \<Longrightarrow> length (positions m) = length (upper U term)"
  by (auto simp: find_els_hits els_result_at_def)

lemma rendered_results_section:
  assumes "upper U term \<noteq> []"
  shows "rendered_results (cps ''highlight-els'')
           (concat (map (\<lambda>v. concat (map (els_block (location v)) (find_els U (text v) term 50))) vs))
         = sum_list (map (\<lambda>v. length (find_els U (text v) term 50)) vs)"
proof (induction vs)
  case Nil
  show ?case by (simp add: rendered_results_def)
next
  case (Cons v vs)
  have "\<forall>m\<in>set (find_els U (text v) term 50). positions m \<noteq> []"
    using find_els_positions_length[of _ U "text v" "term" 50] assms by fastforce
  from rendered_results_blocks[OF this] Cons show ?case
    by (simp add: rendered_results_append)
qed

lemma those_map_the:
  "\<forall>v\<in>set vs. f v \<noteq> None \<Longrightarrow> those (map f vs) = Some (map (\<lambda>v. the (f v)) vs)"
  by (induction vs) auto

lemma html_head_length: "length (html_head term d r e) = 20"
  by (simp add: html_head_def)

lemma html_head_nav: "html_head term d r e ! 18 = nav_line d r e"
  by (simp add: html_head_def nav_line_def cps_def)

lemma html_head_title:
  "html_head term d r e ! 4
     = cps ''  <title>Yada Bible Word Search Report for \"'' @ term @ cps ''\"</title>''"
  by (simp add: html_head_def)

lemma html_head_h1: "html_head term d r e ! 16 = cps ''<h1>Search Term: '' @ term @ cps ''</h1>''"
  by (simp add: html_head_def)

lemma find_direct_empty_needle: "upper U term = [] \<Longrightarrow> find_direct U t term = None"
  by (simp add: find_direct_def scan_from_start_diverges)

lemma line_in_join: "x \<in> set xs \<Longrightarrow> \<exists>pre post. str_join sep xs = pre @ x @ post"
proof (induction sep xs rule: str_join.induct)
  case (1 sep)
  then show ?case by simp
next
  case (2 sep y)
  then have "str_join sep [y] = [] @ x @ []" by simp
  then show ?case by blast
next
  case (3 sep y z zs)
  show ?case
  proof (cases "x = y")
    case True
    then have "str_join sep (y # z # zs) = [] @ x @ (sep @ str_join sep (z # zs))" by simp
    then show ?thesis by blast
  next
    case False
    with 3 obtain pre post where "str_join sep (z # zs) = pre @ x @ post" by auto
    then have "str_join sep (y # z # zs) = (y @ sep @ pre) @ x @ post" by simp
    then show ?thesis by blast
  qed
qed

text \<open>
  C8. When \<open>generate_html\<close> returns (it does for every term with a non-empty
  uppercase), the navigation line shows the number of direct matches, of reversed
  matches and of ELS results summed over the verses, and the document is the head,
  the three headings and three sections such that the section of conventional
  matches renders as many matches as the first count, the section of reversed matches
  as many as the second, and the ELS section as many results as the third.
\<close>

theorem nav_counts:
  "(upper U term \<noteq> [] \<longrightarrow> generate_html_lines U verses term \<noteq> None)
   \<and> (\<forall>html. generate_html_lines U verses term = Some html \<longrightarrow>
        (\<exists>dms rms conv rev els.
            those (map (\<lambda>v. find_direct U (text v) term) verses) = Some dms
          \<and> those (map (\<lambda>v. find_reversed U (text v) term) verses) = Some rms
          \<and> html ! 18 = nav_line (sum_list (map length dms)) (sum_list (map length rms))
                           (sum_list (map (\<lambda>v. length (find_els U (text v) term 50)) verses))
          \<and> html = html_head term (sum_list (map length dms)) (sum_list (map length rms))
                           (sum_list (map (\<lambda>v. length (find_els U (text v) term 50)) verses))
                   @ [cps ''<h2 id=\"conventional\">Conventional Matches</h2>''] @ conv
                   @ [cps ''<h2 id=\"reversed\">Reversed Matches</h2>''] @ rev
                   @ [cps ''<h2 id=\"els\">Equidistant Letter Sequences (ELS)</h2>''] @ els
                   @ [cps ''</body>'', cps ''</html>'']
          \<and> rendered_spans (cps ''highlight-direct'') conv = sum_list (map length dms)
          \<and> rendered_spans (cps ''highlight-reverse'') rev = sum_list (map length rms)
          \<and> rendered_results (cps ''highlight-els'') els
              = sum_list (map (\<lambda>v. length (find_els U (text v) term 50)) verses)))"
proof (intro conjI allI impI)
  assume "upper U term \<noteq> []"
  then show "generate_html_lines U verses term \<noteq> None" by (rule generate_html_lines_total)
next
  fix html
  assume g: "generate_html_lines U verses term = Some html"
  note sh = generate_html_lines_shape[OF g]
  define dms where "dms = map (\<lambda>v. the (find_direct U (text v) term)) verses"
  define rms where "rms = map (\<lambda>v. the (find_reversed U (text v) term)) verses"
  define ec where "ec = sum_list (map (\<lambda>v. length (find_els U (text v) term 50)) verses)"
  define conv where "conv = concat (map (\<lambda>v. match_block (cps ''highlight-direct'') v
                                     (the (find_direct U (text v) term))) verses)"
  define rev where "rev = concat (map (\<lambda>v. match_block (cps ''highlight-reverse'') v
                                     (the (find_reversed U (text v) term))) verses)"
  define els where "els = concat (map (\<lambda>v. concat (map (els_block (location v))
                                     (find_els U (text v) term 50))) verses)"
  have sd: "sum_list (map length dms)
      = sum_list (map (\<lambda>v. length (the (find_direct U (text v) term))) verses)"
    by (simp add: dms_def comp_def)
  have sr: "sum_list (map length rms)
      = sum_list (map (\<lambda>v. length (the (find_reversed U (text v) term))) verses)"
    by (simp add: rms_def comp_def)
  from sh have 1: "those (map (\<lambda>v. find_direct U (text v) term) verses) = Some dms"
    unfolding dms_def by (intro those_map_the) blast
  from sh have 2: "those (map (\<lambda>v. find_reversed U (text v) term) verses) = Some rms"
    unfolding rms_def by (intro those_map_the) blast
  from sh have 4: "html = html_head term (sum_list (map length dms)) (sum_list (map length rms)) ec
                   @ [cps ''<h2 id=\"conventional\">Conventional Matches</h2>''] @ conv
                   @ [cps ''<h2 id=\"reversed\">Reversed Matches</h2>''] @ rev
                   @ [cps ''<h2 id=\"els\">Equidistant Letter Sequences (ELS)</h2>''] @ els
                   @ [cps ''</body>'', cps ''</html>'']"
    unfolding sd sr ec_def conv_def rev_def els_def by blast
  have 3: "html ! 18 = nav_line (sum_list (map length dms)) (sum_list (map length rms)) ec"
    by (subst 4) (simp add: nth_append html_head_length html_head_nav)
  have 5: "rendered_spans (cps ''highlight-direct'') conv = sum_list (map length dms)"
    unfolding conv_def sd by (rule rendered_spans_section) (simp add: cps_def)
  have 6: "rendered_spans (cps ''highlight-reverse'') rev = sum_list (map length rms)"
    unfolding rev_def sr by (rule rendered_spans_section) (simp add: cps_def)
  have 7: "rendered_results (cps ''highlight-els'') els = ec"
  proof (cases verses)
    case Nil
    then show ?thesis by (simp add: els_def ec_def rendered_results_def)
  next
    case (Cons v vs)
    with sh have "find_direct U (text v) term \<noteq> None" by simp
    then have "upper U term \<noteq> []"
      using find_direct_empty_needle[of U "term" "text v"] by auto
    then show ?thesis unfolding els_def ec_def by (rule rendered_results_section)
  qed
  from 1 2 3 4 5 6 7
  show "\<exists>dms rms conv rev els.
            those (map (\<lambda>v. find_direct U (text v) term) verses) = Some dms
          \<and> those (map (\<lambda>v. find_reversed U (text v) term) verses) = Some rms
          \<and> html ! 18 = nav_line (sum_list (map length dms)) (sum_list (map length rms))
                           (sum_list (map (\<lambda>v. length (find_els U (text v) term 50)) verses))
          \<and> html = html_head term (sum_list (map length dms)) (sum_list (map length rms))
                           (sum_list (map (\<lambda>v. length (find_els U (text v) term 50)) verses))
                   @ [cps ''<h2 id=\"conventional\">Conventional Matches</h2>''] @ conv
                   @ [cps ''<h2 id=\"reversed\">Reversed Matches</h2>''] @ rev
                   @ [cps ''<h2 id=\"els\">Equidistant Letter Sequences (ELS)</h2>''] @ els
                   @ [cps ''</body>'', cps ''</html>'']
          \<and> rendered_spans (cps ''highlight-direct'') conv = sum_list (map length dms)
          \<and> rendered_spans (cps ''highlight-reverse'') rev = sum_list (map length rms)
          \<and> rendered_results (cps ''highlight-els'') els
              = sum_list (map (\<lambda>v. length (find_els U (text v) term 50)) verses)"
    unfolding ec_def by blast
qed


theorem nav_counts_witness:
  "upper latin_tables (cps ''god'') \<noteq> []
   \<and> (\<exists>html. generate_html_lines latin_tables
          [\<lparr>book = cps ''Genesis'', chapter = cps ''1'', verse = cps ''1'',
            text = cps ''In God & dog''\<rparr>] (cps ''god'') = Some html)
   \<and> map_option (\<lambda>html. html ! 18) (generate_html_lines latin_tables
          [\<lparr>book = cps ''Genesis'', chapter = cps ''1'', verse = cps ''1'',
            text = cps ''In God & dog''\<rparr>] (cps ''god'')) = Some (nav_line 1 1 1)"
proof -
  have ne: "upper latin_tables (cps ''god'') \<noteq> []"
    by (simp add: upper_def latin_tables_def cps_def)
  from conjunct1[OF nav_counts[of latin_tables "cps ''god''"
        "[\<lparr>book = cps ''Genesis'', chapter = cps ''1'', verse = cps ''1'',
            text = cps ''In God & dog''\<rparr>]"]] ne
  have ex: "\<exists>html. generate_html_lines latin_tables
          [\<lparr>book = cps ''Genesis'', chapter = cps ''1'', verse = cps ''1'',
            text = cps ''In God & dog''\<rparr>] (cps ''god'') = Some html"
    by simp
  have ev: "map_option (\<lambda>html. html ! 18) (generate_html_lines latin_tables
          [\<lparr>book = cps ''Genesis'', chapter = cps ''1'', verse = cps ''1'',
            text = cps ''In God & dog''\<rparr>] (cps ''god'')) = Some (nav_line 1 1 1)"
    by code_simp
  from ne ex ev show ?thesis by blast
qed

end
